theory Spec2Isabelle
  imports Main "HOL-Library.Word"
begin

unbundle bit_operations_syntax

section \<open>Compile-time parameters (cuckoo.h and the macros of cuda_miner.cu)\<close>

text \<open>
  \<^verbatim>\<open>cuckoo.h\<close> is included by \<^verbatim>\<open>cuda_miner.cu\<close> but is not part of the sources
  at hand.  It supplies the macros \<^verbatim>\<open>SIZESHIFT\<close>, \<^verbatim>\<open>PROOFSIZE\<close>, \<^verbatim>\<open>SIZE\<close>,
  \<^verbatim>\<open>HALFSIZE\<close>, \<^verbatim>\<open>NODEMASK\<close>, the integer types \<^verbatim>\<open>u32\<close>, \<^verbatim>\<open>u64\<close>,
  \<^verbatim>\<open>node_t\<close>, \<^verbatim>\<open>nonce_t\<close>, the \<^verbatim>\<open>SIPROUND\<close> macro and \<^verbatim>\<open>sipedge\<close>.
  The numeric macros \<^verbatim>\<open>SIZESHIFT\<close>, \<^verbatim>\<open>PROOFSIZE\<close> and \<^verbatim>\<open>PART_BITS\<close> are
  taken as parameters; the keyed generators \<^verbatim>\<open>dipnode\<close> and \<^verbatim>\<open>sipedge\<close> are
  taken as function parameters wherever the code calls them.
\<close>

type_synonym u32 = "32 word"
type_synonym u64 = "64 word"

text \<open>
  Modelled from the spec: \<^verbatim>\<open>node_t\<close> and \<^verbatim>\<open>nonce_t\<close> (declared in cuckoo.h) are
  unsigned integers holding node identifiers below \<^verbatim>\<open>SIZE\<close> and edge indices
  below \<^verbatim>\<open>HALFSIZE\<close>.  They are modelled as 64-bit words, the widest
  operand type of every expression they occur in (\<^verbatim>\<open>SIZE\<close>, \<^verbatim>\<open>CUCKOO_MASK\<close>
  are \<^verbatim>\<open>unsigned long\<close>).
\<close>

type_synonym node_t = "64 word"
type_synonym nonce_t = "64 word"

record params =
  SIZESHIFT :: nat
  PART_BITS :: nat
  PROOFSIZE :: nat

text \<open>\<^verbatim>\<open>#define SIZE (1UL<<SIZESHIFT)\<close>, \<^verbatim>\<open>#define HALFSIZE (SIZE/2)\<close> (spec, section 3).\<close>

definition SIZE :: "params \<Rightarrow> u64" where
  "SIZE P = push_bit (SIZESHIFT P) 1"

definition HALFSIZE :: "params \<Rightarrow> u64" where
  "HALFSIZE P = SIZE P div 2"

text \<open>\<^verbatim>\<open>#define IDXSHIFT (PART_BITS + 6)\<close>\<close>

definition IDXSHIFT :: "params \<Rightarrow> nat" where
  "IDXSHIFT P = PART_BITS P + 6"

text \<open>\<^verbatim>\<open>#define MAXPATHLEN (8 << (SIZESHIFT/3))\<close>\<close>

definition MAXPATHLEN :: "params \<Rightarrow> u32" where
  "MAXPATHLEN P = push_bit (SIZESHIFT P div 3) 8"

text \<open>\<^verbatim>\<open>#define PART_MASK ((1 << PART_BITS) - 1)\<close>\<close>

definition PART_MASK :: "params \<Rightarrow> u32" where
  "PART_MASK P = push_bit (PART_BITS P) 1 - 1"

text \<open>\<^verbatim>\<open>#define ONCE_BITS (HALFSIZE >> PART_BITS)\<close>,
  \<^verbatim>\<open>#define TWICE_WORDS ((2 * ONCE_BITS) / 32)\<close>\<close>

definition ONCE_BITS :: "params \<Rightarrow> u64" where
  "ONCE_BITS P = drop_bit (PART_BITS P) (HALFSIZE P)"

definition TWICE_WORDS :: "params \<Rightarrow> u64" where
  "TWICE_WORDS P = (2 * ONCE_BITS P) div 32"

text \<open>\<^verbatim>\<open>#define CUCKOO_SIZE (SIZE >> IDXSHIFT)\<close>, \<^verbatim>\<open>#define CUCKOO_MASK (CUCKOO_SIZE - 1)\<close>,
  \<^verbatim>\<open>#define KEYBITS (64-SIZESHIFT)\<close>, \<^verbatim>\<open>#define KEYMASK ((1L << KEYBITS) - 1)\<close>,
  \<^verbatim>\<open>#define MAXDRIFT (1L << (KEYBITS - IDXSHIFT))\<close>\<close>

definition CUCKOO_SIZE :: "params \<Rightarrow> u64" where
  "CUCKOO_SIZE P = drop_bit (IDXSHIFT P) (SIZE P)"

definition CUCKOO_MASK :: "params \<Rightarrow> u64" where
  "CUCKOO_MASK P = CUCKOO_SIZE P - 1"

definition KEYBITS :: "params \<Rightarrow> nat" where
  "KEYBITS P = 64 - SIZESHIFT P"

definition KEYMASK :: "params \<Rightarrow> u64" where
  "KEYMASK P = push_bit (KEYBITS P) 1 - 1"

definition MAXDRIFT :: "params \<Rightarrow> u64" where
  "MAXDRIFT P = push_bit (KEYBITS P - IDXSHIFT P) 1"

text \<open>
  The shifts of the macros above are defined in C only for these parameter
  ranges: the table has at least one slot (\<^verbatim>\<open>IDXSHIFT \<le> SIZESHIFT\<close>) and
  \<^verbatim>\<open>KEYBITS - IDXSHIFT\<close> is not negative.
\<close>

definition wf_params :: "params \<Rightarrow> bool" where
  "wf_params P \<longleftrightarrow> IDXSHIFT P \<le> SIZESHIFT P \<and> SIZESHIFT P + IDXSHIFT P \<le> 64"

section \<open>AliveSet: class shrinkingset\<close>

text \<open>
  The member \<^verbatim>\<open>u32 *bits\<close> is a list of 32-bit words; a set bit marks a dead
  edge.  \<^verbatim>\<open>bits[n/32] |= 1 << (n%32)\<close>.
\<close>

definition shrinkingset_reset :: "u32 list \<Rightarrow> nonce_t \<Rightarrow> u32 list" where
  "shrinkingset_reset bits n =
     bits[unat (n div 32) := (bits ! unat (n div 32)) OR push_bit (unat (n mod 32)) 1]"

text \<open>\<^verbatim>\<open>return !((bits[n/32] >> (n%32)) & 1);\<close>\<close>

definition shrinkingset_test :: "u32 list \<Rightarrow> nonce_t \<Rightarrow> bool" where
  "shrinkingset_test bits n \<longleftrightarrow>
     \<not> (drop_bit (unat (n mod 32)) (bits ! unat (n div 32)) AND 1 \<noteq> 0)"

text \<open>\<^verbatim>\<open>return ~bits[n/32];\<close>\<close>

definition shrinkingset_block :: "u32 list \<Rightarrow> nonce_t \<Rightarrow> u32" where
  "shrinkingset_block bits n = NOT (bits ! unat (n div 32))"

section \<open>DegreeCounter: class twice_set\<close>

text \<open>\<^verbatim>\<open>memset(bits, 0, TWICE_WORDS * sizeof(u32));\<close>\<close>

definition twice_set_reset :: "params \<Rightarrow> u32 list" where
  "twice_set_reset P = replicate (unat (TWICE_WORDS P)) 0"

text \<open>
  \<^verbatim>\<open>atomicOr(&bits[idx], bit)\<close> stores \<^verbatim>\<open>bits[idx] | bit\<close> and returns the old
  word.  The body of \<^verbatim>\<open>set\<close> is two such operations, the second one conditional.
\<close>

definition atomicOr :: "u32 list \<Rightarrow> nat \<Rightarrow> u32 \<Rightarrow> u32 \<times> u32 list" where
  "atomicOr bits idx val = (bits ! idx, bits[idx := (bits ! idx) OR val])"

definition twice_set_set :: "u32 list \<Rightarrow> node_t \<Rightarrow> u32 list" where
  "twice_set_set bits u =
     (let idx = unat (u div 16);
          bit = (push_bit (2 * unat (u mod 16)) 1 :: u32);
          (old, bits1) = atomicOr bits idx bit;
          bit2 = push_bit 1 bit
      in if old AND (bit2 OR bit) = bit then snd (atomicOr bits1 idx bit2) else bits1)"

text \<open>\<^verbatim>\<open>return (bits[u/16] >> (2 * (u%16))) & 2;\<close>\<close>

definition twice_set_test :: "u32 list \<Rightarrow> node_t \<Rightarrow> u32" where
  "twice_set_test bits u = drop_bit (2 * unat (u mod 16)) (bits ! unat (u div 16)) AND 2"

section \<open>Trimmer: the kernels count_node_deg and kill_leaf_edges\<close>

text \<open>
  \<^verbatim>\<open>dipnode(&ctx->sip_ctx, nonce, uorv)\<close> is the keyed edge generator; its body
  uses the \<^verbatim>\<open>SIPROUND\<close> macro of cuckoo.h, so the kernels take it as the
  function parameter \<open>dipnode\<close>.

  The inner loop of both kernels,
  \<^verbatim>\<open>for (nonce_t nonce = block; alive32; alive32>>=1, nonce++)\<close>.
\<close>

lemma unat_drop_bit_1_less: "w \<noteq> 0 \<Longrightarrow> unat (drop_bit (Suc 0) w) < unat w" for w :: u32
proof -
  assume "w \<noteq> 0"
  then have "0 < unat w" by (simp add: unat_gt_0)
  then have "unat w div 2 < unat w" by simp
  then show ?thesis by (simp add: drop_bit_Suc unat_div)
qed

lemma unat_Suc_less: "a < b \<Longrightarrow> unat (a + 1) = Suc (unat a)" for a b :: "'a::len word"
proof -
  assume "a < b"
  have "a + 1 \<noteq> 0"
  proof
    assume "a + 1 = 0"
    then have "a = - 1" by (simp add: eq_neg_iff_add_eq_0)
    with \<open>a < b\<close> show False by simp
  qed
  then show ?thesis using unatSuc[of a] by (simp add: add.commute)
qed

function count_inner ::
  "params \<Rightarrow> (nonce_t \<Rightarrow> u32 \<Rightarrow> node_t) \<Rightarrow> u32 \<Rightarrow> u32 \<Rightarrow> u32 \<Rightarrow> nonce_t \<Rightarrow> u32 list \<Rightarrow> u32 list"
where
  "count_inner P dipnode uorv part alive32 nonce nonleaf =
     (if alive32 = 0 then nonleaf
      else count_inner P dipnode uorv part (drop_bit 1 alive32) (nonce + 1)
             (if alive32 AND 1 \<noteq> 0 then
                (let u = dipnode nonce uorv in
                 if u AND ucast (PART_MASK P) = ucast part
                 then twice_set_set nonleaf (drop_bit (PART_BITS P) u)
                 else nonleaf)
              else nonleaf))"
  by pat_completeness auto
termination
  by (relation "measure (\<lambda>(P, dipnode, uorv, part, alive32, nonce, nonleaf). unat alive32)")
     (simp_all add: unat_drop_bit_1_less)

declare count_inner.simps [simp del]

function kill_inner ::
  "params \<Rightarrow> (nonce_t \<Rightarrow> u32 \<Rightarrow> node_t) \<Rightarrow> u32 list \<Rightarrow> u32 \<Rightarrow> u32 \<Rightarrow> u32 \<Rightarrow> nonce_t \<Rightarrow> u32 list \<Rightarrow> u32 list"
where
  "kill_inner P dipnode nonleaf uorv part alive32 nonce alive =
     (if alive32 = 0 then alive
      else kill_inner P dipnode nonleaf uorv part (drop_bit 1 alive32) (nonce + 1)
             (if alive32 AND 1 \<noteq> 0 then
                (let u = dipnode nonce uorv in
                 if u AND ucast (PART_MASK P) = ucast part
                 then (if twice_set_test nonleaf (drop_bit (PART_BITS P) u) = 0
                       then shrinkingset_reset alive nonce else alive)
                 else alive)
              else alive))"
  by pat_completeness auto
termination
  by (relation "measure (\<lambda>(P, dipnode, nonleaf, uorv, part, alive32, nonce, alive). unat alive32)")
     (simp_all add: unat_drop_bit_1_less)

declare kill_inner.simps [simp del]

text \<open>
  One thread of a kernel: \<^verbatim>\<open>for (nonce_t block = id*32; block < HALFSIZE;
  block += ctx->nthreads*32)\<close>.  The thread identifier, the thread count and the
  block offset are naturals (the products \<^verbatim>\<open>id*32\<close> and \<^verbatim>\<open>nthreads*32\<close> are
  taken without overflow).  A grid of \<open>nthreads\<close> blocks has the identifiers
  \<open>0 ..< nthreads\<close>, so a thread only runs when \<open>0 < nthreads\<close>.
\<close>

function count_node_deg_thread ::
  "params \<Rightarrow> (nonce_t \<Rightarrow> u32 \<Rightarrow> node_t) \<Rightarrow> u32 list \<Rightarrow> nat \<Rightarrow> u32 \<Rightarrow> u32 \<Rightarrow> nat \<Rightarrow> u32 list \<Rightarrow> u32 list"
where
  "count_node_deg_thread P dipnode alive nthreads uorv part block nonleaf =
     (if block < unat (HALFSIZE P) \<and> 0 < nthreads then
        count_node_deg_thread P dipnode alive nthreads uorv part (block + nthreads * 32)
          (count_inner P dipnode uorv part
             (shrinkingset_block alive (of_nat block)) (of_nat block) nonleaf)
      else nonleaf)"
  by pat_completeness auto
termination
  by (relation "measure (\<lambda>(P, dipnode, alive, nthreads, uorv, part, block, nonleaf).
                   unat (HALFSIZE P) - block)") auto

declare count_node_deg_thread.simps [simp del]

function kill_leaf_edges_thread ::
  "params \<Rightarrow> (nonce_t \<Rightarrow> u32 \<Rightarrow> node_t) \<Rightarrow> u32 list \<Rightarrow> nat \<Rightarrow> u32 \<Rightarrow> u32 \<Rightarrow> nat \<Rightarrow> u32 list \<Rightarrow> u32 list"
where
  "kill_leaf_edges_thread P dipnode nonleaf nthreads uorv part block alive =
     (if block < unat (HALFSIZE P) \<and> 0 < nthreads then
        kill_leaf_edges_thread P dipnode nonleaf nthreads uorv part (block + nthreads * 32)
          (kill_inner P dipnode nonleaf uorv part
             (shrinkingset_block alive (of_nat block)) (of_nat block) alive)
      else alive)"
  by pat_completeness auto
termination
  by (relation "measure (\<lambda>(P, dipnode, nonleaf, nthreads, uorv, part, block, alive).
                   unat (HALFSIZE P) - block)") auto

declare kill_leaf_edges_thread.simps [simp del]

text \<open>
  A launch \<^verbatim>\<open>kernel<<<nthreads,1>>>(device_ctx,uorv,part)\<close> runs the threads
  \<open>id = 0 ..< nthreads\<close>; here they run one after the other in the order of
  their identifiers.
\<close>

definition count_node_deg ::
  "params \<Rightarrow> (nonce_t \<Rightarrow> u32 \<Rightarrow> node_t) \<Rightarrow> u32 list \<Rightarrow> nat \<Rightarrow> u32 \<Rightarrow> u32 \<Rightarrow> u32 list \<Rightarrow> u32 list"
where
  "count_node_deg P dipnode alive nthreads uorv part nonleaf =
     foldl (\<lambda>nl id. count_node_deg_thread P dipnode alive nthreads uorv part (id * 32) nl)
       nonleaf [0..<nthreads]"

definition kill_leaf_edges ::
  "params \<Rightarrow> (nonce_t \<Rightarrow> u32 \<Rightarrow> node_t) \<Rightarrow> u32 list \<Rightarrow> nat \<Rightarrow> u32 \<Rightarrow> u32 \<Rightarrow> u32 list \<Rightarrow> u32 list"
where
  "kill_leaf_edges P dipnode nonleaf nthreads uorv part alive =
     foldl (\<lambda>al id. kill_leaf_edges_thread P dipnode nonleaf nthreads uorv part (id * 32) al)
       alive [0..<nthreads]"

text \<open>
  The body of the innermost loop of the trimming rounds in \<^verbatim>\<open>main\<close>:
  \<^verbatim>\<open>cudaMemset(ctx.nonleaf.bits, 0, nodeBytes); count_node_deg<<<...>>>;
  kill_leaf_edges<<<...>>>;\<close>
\<close>

definition trim_pass ::
  "params \<Rightarrow> (nonce_t \<Rightarrow> u32 \<Rightarrow> node_t) \<Rightarrow> nat \<Rightarrow> u32 list \<Rightarrow> u32 \<times> u32 \<Rightarrow> u32 list"
where
  "trim_pass P dipnode nthreads alive = (\<lambda>(uorv, part).
     kill_leaf_edges P dipnode
       (count_node_deg P dipnode alive nthreads uorv part (twice_set_reset P))
       nthreads uorv part alive)"

text \<open>
  \<^verbatim>\<open>for (u32 uorv = 0; uorv < 2; uorv++) for (u32 part = 0; part <= PART_MASK; part++)\<close>
\<close>

definition trim_round :: "params \<Rightarrow> (nonce_t \<Rightarrow> u32 \<Rightarrow> node_t) \<Rightarrow> nat \<Rightarrow> u32 list \<Rightarrow> u32 list" where
  "trim_round P dipnode nthreads alive =
     foldl (trim_pass P dipnode nthreads) alive
       (concat (map (\<lambda>uorv. map (\<lambda>part. (of_nat uorv, of_nat part)) [0..<Suc (unat (PART_MASK P))])
                  [0..<2]))"

text \<open>
  \<^verbatim>\<open>for (u32 round=0; round < ntrims; round++)\<close>, started on the edge set
  cleared by \<^verbatim>\<open>cudaMemset(ctx.alive.bits, 0, edgeBytes)\<close> (all edges alive).
\<close>

definition alive_init :: "params \<Rightarrow> u32 list" where
  "alive_init P = replicate (unat (HALFSIZE P div 32)) 0"

definition trim :: "params \<Rightarrow> (nonce_t \<Rightarrow> u32 \<Rightarrow> node_t) \<Rightarrow> nat \<Rightarrow> nat \<Rightarrow> u32 list \<Rightarrow> u32 list" where
  "trim P dipnode nthreads ntrims alive = ((trim_round P dipnode nthreads) ^^ ntrims) alive"

section \<open>Trimmer: the threads of a kernel running concurrently\<close>

text \<open>
  The kernels are launched as \<^verbatim>\<open>count_node_deg<<<nthreads,1>>>\<close> and
  \<^verbatim>\<open>kill_leaf_edges<<<nthreads,1>>>\<close>: the \<open>nthreads\<close> threads of a kernel run
  concurrently on the arrays \<^verbatim>\<open>alive.bits\<close> and \<^verbatim>\<open>nonleaf.bits\<close>, and a kernel
  starts when the kernel launched before it has ended.  The definitions of this
  section let a thread do its accesses to the two arrays one at a time, so
  that a run of a kernel is an order in which its threads take their steps.

  No thread writes \<^verbatim>\<open>alive.bits\<close> during \<^verbatim>\<open>count_node_deg\<close>, so the calls
  \<^verbatim>\<open>nonleaf.set(u >> PART_BITS)\<close> made for a block are fixed by the word of the
  block: \<open>count_inner_marks\<close> is the inner loop of the kernel returning the
  arguments of these calls in order.  No thread writes \<^verbatim>\<open>nonleaf.bits\<close> during
  \<^verbatim>\<open>kill_leaf_edges\<close>, and \<open>kill_inner_kills\<close> is the inner loop of that kernel
  returning the arguments of its calls \<^verbatim>\<open>alive.reset(nonce)\<close> in order.
\<close>

function count_inner_marks ::
  "params \<Rightarrow> (nonce_t \<Rightarrow> u32 \<Rightarrow> node_t) \<Rightarrow> u32 \<Rightarrow> u32 \<Rightarrow> u32 \<Rightarrow> nonce_t \<Rightarrow> node_t list"
where
  "count_inner_marks P dipnode uorv part alive32 nonce =
     (if alive32 = 0 then []
      else (if alive32 AND 1 \<noteq> 0 then
              (let u = dipnode nonce uorv in
               if u AND ucast (PART_MASK P) = ucast part then [drop_bit (PART_BITS P) u] else [])
            else [])
           @ count_inner_marks P dipnode uorv part (drop_bit 1 alive32) (nonce + 1))"
  by pat_completeness auto
termination
  by (relation "measure (\<lambda>(P, dipnode, uorv, part, alive32, nonce). unat alive32)")
     (simp_all add: unat_drop_bit_1_less)

declare count_inner_marks.simps [simp del]

function kill_inner_kills ::
  "params \<Rightarrow> (nonce_t \<Rightarrow> u32 \<Rightarrow> node_t) \<Rightarrow> u32 list \<Rightarrow> u32 \<Rightarrow> u32 \<Rightarrow> u32 \<Rightarrow> nonce_t \<Rightarrow> nonce_t list"
where
  "kill_inner_kills P dipnode nonleaf uorv part alive32 nonce =
     (if alive32 = 0 then []
      else (if alive32 AND 1 \<noteq> 0 then
              (let u = dipnode nonce uorv in
               if u AND ucast (PART_MASK P) = ucast part
               then (if twice_set_test nonleaf (drop_bit (PART_BITS P) u) = 0 then [nonce] else [])
               else [])
            else [])
           @ kill_inner_kills P dipnode nonleaf uorv part (drop_bit 1 alive32) (nonce + 1))"
  by pat_completeness auto
termination
  by (relation "measure (\<lambda>(P, dipnode, nonleaf, uorv, part, alive32, nonce). unat alive32)")
     (simp_all add: unat_drop_bit_1_less)

declare kill_inner_kills.simps [simp del]

text \<open>
  The loop \<^verbatim>\<open>for (nonce_t block = id*32; block < HALFSIZE; block += ctx->nthreads*32)\<close>
  of one thread of \<^verbatim>\<open>count_node_deg\<close>: the arguments of all its calls of
  \<^verbatim>\<open>nonleaf.set\<close>, in order.
\<close>

function count_thread_marks ::
  "params \<Rightarrow> (nonce_t \<Rightarrow> u32 \<Rightarrow> node_t) \<Rightarrow> u32 list \<Rightarrow> nat \<Rightarrow> u32 \<Rightarrow> u32 \<Rightarrow> nat \<Rightarrow> node_t list"
where
  "count_thread_marks P dipnode alive nthreads uorv part block =
     (if block < unat (HALFSIZE P) \<and> 0 < nthreads then
        count_inner_marks P dipnode uorv part (shrinkingset_block alive (of_nat block)) (of_nat block)
        @ count_thread_marks P dipnode alive nthreads uorv part (block + nthreads * 32)
      else [])"
  by pat_completeness auto
termination
  by (relation "measure (\<lambda>(P, dipnode, alive, nthreads, uorv, part, block).
                   unat (HALFSIZE P) - block)") auto

declare count_thread_marks.simps [simp del]

text \<open>
  A thread of \<^verbatim>\<open>count_node_deg\<close>: the arguments of the calls of \<^verbatim>\<open>set\<close> it has
  still to make, and the node of a call of \<^verbatim>\<open>set\<close> that has done its first
  \<^verbatim>\<open>atomicOr\<close> and found \<^verbatim>\<open>(old & (bit2|bit)) == bit\<close>, so that its second
  \<^verbatim>\<open>atomicOr\<close> is still to come.  One step of thread \<open>t\<close> is one \<^verbatim>\<open>atomicOr\<close>;
  a thread that has ended takes no step.
\<close>

type_synonym cthread = "node_t list \<times> node_t option"

definition count_step :: "nat \<Rightarrow> u32 list \<times> cthread list \<Rightarrow> u32 list \<times> cthread list" where
  "count_step t = (\<lambda>(bits, ths).
     if t < length ths then
       (case ths ! t of
          (us, Some u) \<Rightarrow>
            (let idx = unat (u div 16);
                 bit = (push_bit (2 * unat (u mod 16)) 1 :: u32);
                 bit2 = push_bit 1 bit
             in (snd (atomicOr bits idx bit2), ths[t := (us, None)]))
        | ([], None) \<Rightarrow> (bits, ths)
        | (u # us, None) \<Rightarrow>
            (let idx = unat (u div 16);
                 bit = (push_bit (2 * unat (u mod 16)) 1 :: u32);
                 (old, bits1) = atomicOr bits idx bit;
                 bit2 = push_bit 1 bit
             in (bits1, ths[t := (us, if old AND (bit2 OR bit) = bit then Some u else None)])))
     else (bits, ths))"

text \<open>
  A schedule is the list of the thread identifiers in the order in which the
  threads take their steps.  The kernel starts after
  \<^verbatim>\<open>cudaMemset(ctx.nonleaf.bits, 0, nodeBytes)\<close> with the threads \<open>0 ..< nthreads\<close>,
  thread \<open>id\<close> at block \<open>id*32\<close>, and it has ended when every thread has.
\<close>

definition count_run :: "nat list \<Rightarrow> u32 list \<times> cthread list \<Rightarrow> u32 list \<times> cthread list" where
  "count_run sched s = foldl (\<lambda>s t. count_step t s) s sched"

definition count_init ::
  "params \<Rightarrow> (nonce_t \<Rightarrow> u32 \<Rightarrow> node_t) \<Rightarrow> u32 list \<Rightarrow> nat \<Rightarrow> u32 \<Rightarrow> u32 \<Rightarrow> u32 list \<times> cthread list" where
  "count_init P dipnode alive nthreads uorv part =
     (twice_set_reset P,
      map (\<lambda>id. (count_thread_marks P dipnode alive nthreads uorv part (id * 32), None)) [0..<nthreads])"

definition count_done :: "cthread list \<Rightarrow> bool" where
  "count_done ths = list_all (\<lambda>th. th = ([], None)) ths"

text \<open>
  A thread of \<^verbatim>\<open>kill_leaf_edges\<close> is at the head of the loop over its blocks
  (\<open>AtBlock block\<close>), or inside a block with the nonces it has still to reset
  (\<open>InBlock block ns\<close>), or inside \<^verbatim>\<open>alive.reset(n)\<close>: the statement
  \<^verbatim>\<open>bits[n/32] |= 1 << (n%32)\<close> is not atomic, it loads the word and then stores
  it (\<open>Loaded block n ns w\<close>, with the loaded word \<open>w\<close>).  One step of thread \<open>t\<close>
  is the read \<^verbatim>\<open>alive.block(block)\<close> at the head of the loop, which fixes the
  resets of the block, or the load or the store of a reset, or the move to
  the next block \<^verbatim>\<open>block += ctx->nthreads*32\<close>.
\<close>

datatype kthread = AtBlock nat | InBlock nat "nonce_t list" | Loaded nat nonce_t "nonce_t list" u32

definition kill_step ::
  "params \<Rightarrow> (nonce_t \<Rightarrow> u32 \<Rightarrow> node_t) \<Rightarrow> u32 list \<Rightarrow> nat \<Rightarrow> u32 \<Rightarrow> u32 \<Rightarrow> nat \<Rightarrow>
   u32 list \<times> kthread list \<Rightarrow> u32 list \<times> kthread list"
where
  "kill_step P dipnode nonleaf nthreads uorv part t = (\<lambda>(alive, ths).
     if t < length ths then
       (case ths ! t of
          AtBlock block \<Rightarrow>
            if block < unat (HALFSIZE P) then
              (alive, ths[t := InBlock block
                 (kill_inner_kills P dipnode nonleaf uorv part
                    (shrinkingset_block alive (of_nat block)) (of_nat block))])
            else (alive, ths)
        | InBlock block [] \<Rightarrow> (alive, ths[t := AtBlock (block + nthreads * 32)])
        | InBlock block (n # ns) \<Rightarrow> (alive, ths[t := Loaded block n ns (alive ! unat (n div 32))])
        | Loaded block n ns w \<Rightarrow>
            (alive[unat (n div 32) := w OR push_bit (unat (n mod 32)) 1], ths[t := InBlock block ns]))
     else (alive, ths))"

definition kill_run ::
  "params \<Rightarrow> (nonce_t \<Rightarrow> u32 \<Rightarrow> node_t) \<Rightarrow> u32 list \<Rightarrow> nat \<Rightarrow> u32 \<Rightarrow> u32 \<Rightarrow> nat list \<Rightarrow>
   u32 list \<times> kthread list \<Rightarrow> u32 list \<times> kthread list"
where
  "kill_run P dipnode nonleaf nthreads uorv part sched s =
     foldl (\<lambda>s t. kill_step P dipnode nonleaf nthreads uorv part t s) s sched"

definition kill_init :: "nat \<Rightarrow> kthread list" where
  "kill_init nthreads = map (\<lambda>id. AtBlock (id * 32)) [0..<nthreads]"

definition kill_done :: "params \<Rightarrow> kthread list \<Rightarrow> bool" where
  "kill_done P ths =
     list_all (\<lambda>th. case th of AtBlock block \<Rightarrow> \<not> block < unat (HALFSIZE P) | _ \<Rightarrow> False) ths"

text \<open>
  The trimming rounds of \<^verbatim>\<open>main\<close> on concurrent threads.  \<open>trim_passes\<close> is the
  sequence of the pairs \<^verbatim>\<open>(uorv, part)\<close> of the three nested loops, and a run is
  given by one pair of schedules for each of them: one for \<^verbatim>\<open>count_node_deg\<close>
  and one for \<^verbatim>\<open>kill_leaf_edges\<close>.  A kernel starts when the kernel before it
  has ended, so a list of schedules is a run only if it has a pair of schedules
  for every pair of kernels and every schedule ends its kernel; \<open>trim_sched\<close>
  is \<open>None\<close> on any other list.
\<close>

definition round_passes :: "params \<Rightarrow> (u32 \<times> u32) list" where
  "round_passes P =
     concat (map (\<lambda>uorv. map (\<lambda>part. (of_nat uorv, of_nat part)) [0..<Suc (unat (PART_MASK P))])
               [0..<2])"

definition trim_passes :: "params \<Rightarrow> nat \<Rightarrow> (u32 \<times> u32) list" where
  "trim_passes P ntrims = concat (replicate ntrims (round_passes P))"

definition trim_pass_sched ::
  "params \<Rightarrow> (nonce_t \<Rightarrow> u32 \<Rightarrow> node_t) \<Rightarrow> nat \<Rightarrow> u32 list \<Rightarrow> u32 \<times> u32 \<Rightarrow> nat list \<times> nat list \<Rightarrow>
   u32 list option"
where
  "trim_pass_sched P dipnode nthreads alive = (\<lambda>(uorv, part) (cs, ks).
     (let (nonleaf, cths) = count_run cs (count_init P dipnode alive nthreads uorv part) in
      if count_done cths then
        (let (alive', kths) =
               kill_run P dipnode nonleaf nthreads uorv part ks (alive, kill_init nthreads)
         in if kill_done P kths then Some alive' else None)
      else None))"

fun trim_passes_sched ::
  "params \<Rightarrow> (nonce_t \<Rightarrow> u32 \<Rightarrow> node_t) \<Rightarrow> nat \<Rightarrow> (u32 \<times> u32) list \<Rightarrow> (nat list \<times> nat list) list \<Rightarrow>
   u32 list \<Rightarrow> u32 list option"
where
  "trim_passes_sched P dipnode nthreads [] scheds alive = Some alive"
| "trim_passes_sched P dipnode nthreads (p # ps) [] alive = None"
| "trim_passes_sched P dipnode nthreads (p # ps) (s # scheds) alive =
     (case trim_pass_sched P dipnode nthreads alive p s of
        None \<Rightarrow> None
      | Some alive' \<Rightarrow> trim_passes_sched P dipnode nthreads ps scheds alive')"

definition trim_sched ::
  "params \<Rightarrow> (nonce_t \<Rightarrow> u32 \<Rightarrow> node_t) \<Rightarrow> nat \<Rightarrow> nat \<Rightarrow> (nat list \<times> nat list) list \<Rightarrow>
   u32 list \<Rightarrow> u32 list option"
where
  "trim_sched P dipnode nthreads ntrims scheds alive =
     trim_passes_sched P dipnode nthreads (trim_passes P ntrims) scheds alive"

section \<open>Program outcomes\<close>

text \<open>
  What the program prints (the \<^verbatim>\<open>printf\<close> calls from the load report on; number
  formatting is not modelled) and how a call ends: it returns, it calls
  \<^verbatim>\<open>exit(code)\<close>, or an \<^verbatim>\<open>assert\<close> fails.  \<open>Exit\<close> and \<open>AssertFailed\<close> carry what
  was printed before the process ended.  A loop of the source that has no bound
  returns an \<open>option\<close>: \<open>None\<close> when it never returns.
\<close>

datatype event =
    FinalLoad u32
  | Overloaded
  | CycleFound u32 u32
  | Solution
  | SolutionNonce nonce_t
  | Newline
  | MaxPathLenExceeded
  | IllegalCycle u32

datatype 'a result =
    Return 'a
  | Exit nat "event list"
  | AssertFailed "event list"

text \<open>The events already printed come before those of the failing callee.\<close>

definition printed_before :: "event list \<Rightarrow> 'a result \<Rightarrow> 'a result" where
  "printed_before out r =
     (case r of Return x \<Rightarrow> Return x
      | Exit c evs \<Rightarrow> Exit c (out @ evs)
      | AssertFailed evs \<Rightarrow> AssertFailed (out @ evs))"

section \<open>PathTable: class cuckoo_hash\<close>

text \<open>\<^verbatim>\<open>cuckoo = (u64 *)calloc(CUCKOO_SIZE, sizeof(u64));\<close>\<close>

definition cuckoo_hash_new :: "params \<Rightarrow> u64 list" where
  "cuckoo_hash_new P = replicate (unat (CUCKOO_SIZE P)) 0"

text \<open>
  \<^verbatim>\<open>cuckoo_hash::set\<close> (the branch without \<^verbatim>\<open>ATOMIC\<close>).  The probe loop
  \<^verbatim>\<open>for (node_t ui = u >> IDXSHIFT; ; ui = (ui+1) & CUCKOO_MASK)\<close> has no exit
  condition of its own.
\<close>

partial_function (option) cuckoo_hash_set_loop ::
  "params \<Rightarrow> u64 list \<Rightarrow> node_t \<Rightarrow> u64 \<Rightarrow> node_t \<Rightarrow> u64 list option"
where
  "cuckoo_hash_set_loop P cuckoo u niew ui =
     (let old = cuckoo ! unat ui in
      if old = 0 \<or> drop_bit (SIZESHIFT P) old = u AND KEYMASK P
      then Some (cuckoo[unat ui := niew])
      else cuckoo_hash_set_loop P cuckoo u niew ((ui + 1) AND CUCKOO_MASK P))"

declare cuckoo_hash_set_loop.simps [code]

definition cuckoo_hash_set :: "params \<Rightarrow> u64 list \<Rightarrow> node_t \<Rightarrow> node_t \<Rightarrow> u64 list option" where
  "cuckoo_hash_set P cuckoo u v =
     (let niew = push_bit (SIZESHIFT P) u OR v
      in cuckoo_hash_set_loop P cuckoo u niew (drop_bit (IDXSHIFT P) u))"

text \<open>\<^verbatim>\<open>cuckoo_hash::operator[]\<close> (the branch without \<^verbatim>\<open>ATOMIC\<close>).\<close>

partial_function (option) cuckoo_hash_lookup_loop ::
  "params \<Rightarrow> u64 list \<Rightarrow> node_t \<Rightarrow> node_t \<Rightarrow> node_t result option"
where
  "cuckoo_hash_lookup_loop P cuckoo u ui =
     (let cu = cuckoo ! unat ui in
      if cu = 0 then Some (Return 0)
      else if drop_bit (SIZESHIFT P) cu = u AND KEYMASK P then
        (if (ui - drop_bit (IDXSHIFT P) u) AND CUCKOO_MASK P < MAXDRIFT P
         then Some (Return (cu AND (SIZE P - 1)))
         else Some (AssertFailed []))
      else cuckoo_hash_lookup_loop P cuckoo u ((ui + 1) AND CUCKOO_MASK P))"

declare cuckoo_hash_lookup_loop.simps [code]

definition cuckoo_hash_lookup :: "params \<Rightarrow> u64 list \<Rightarrow> node_t \<Rightarrow> node_t result option" where
  "cuckoo_hash_lookup P cuckoo u = cuckoo_hash_lookup_loop P cuckoo u (drop_bit (IDXSHIFT P) u)"

section \<open>CycleFinder: path\<close>

text \<open>\<^verbatim>\<open>while (nu-- && us[nu] != u) ;\<close> and the value of \<^verbatim>\<open>nu\<close> after it.\<close>

function path_search :: "node_t list \<Rightarrow> node_t \<Rightarrow> u32 \<Rightarrow> u32" where
  "path_search us u nu =
     (if nu \<noteq> 0 \<and> us ! unat (nu - 1) \<noteq> u then path_search us u (nu - 1) else nu - 1)"
  by pat_completeness auto
termination
  by (relation "measure (\<lambda>(us, u, nu). unat nu)") (auto simp add: unat_minus_one unat_gt_0)

declare path_search.simps [simp del]

text \<open>
  The loop \<^verbatim>\<open>for (nu = 0; u; u = cuckoo[u])\<close> of \<^verbatim>\<open>path\<close>, from any value
  of \<^verbatim>\<open>nu\<close>.  It returns the final \<^verbatim>\<open>nu\<close> and the trail \<^verbatim>\<open>us\<close>.
\<close>

function path_loop ::
  "params \<Rightarrow> u64 list \<Rightarrow> node_t \<Rightarrow> node_t list \<Rightarrow> u32 \<Rightarrow> (u32 \<times> node_t list) result option"
where
  "path_loop P cuckoo u us nu =
     (if u = 0 then Some (Return (nu, us))
      else if nu + 1 \<ge> MAXPATHLEN P then
        (let k = path_search us u (nu + 1) in
         Some (Exit 0 [if k = NOT 0 then MaxPathLenExceeded
                       else IllegalCycle (MAXPATHLEN P - k)]))
      else
        (case cuckoo_hash_lookup P cuckoo u of
           None \<Rightarrow> None
         | Some (Return u') \<Rightarrow> path_loop P cuckoo u' (us[unat (nu + 1) := u]) (nu + 1)
         | Some (Exit c evs) \<Rightarrow> Some (Exit c evs)
         | Some (AssertFailed evs) \<Rightarrow> Some (AssertFailed evs)))"
  by pat_completeness auto
termination
proof (relation "measure (\<lambda>(P, cuckoo, u, us, nu). unat (MAXPATHLEN P - 1 - nu))", goal_cases)
  case 1
  show ?case by simp
next
  case (2 P cuckoo u us nu x2 x1)
  define d where "d = MAXPATHLEN P - 1 - nu"
  have "d \<noteq> 0" using 2 by (auto simp add: d_def)
  then have "unat (d - 1) < unat d"
    by (simp add: unat_minus_one unat_gt_0)
  moreover have "MAXPATHLEN P - 1 - (nu + 1) = d - 1" by (simp add: d_def)
  ultimately show ?case by (simp only: in_measure prod.case d_def)
qed

declare path_loop.simps [simp del]

definition path :: "params \<Rightarrow> u64 list \<Rightarrow> node_t \<Rightarrow> node_t list \<Rightarrow> (u32 \<times> node_t list) result option" where
  "path P cuckoo u us = path_loop P cuckoo u us 0"

section \<open>CycleFinder: the scan of the surviving edges in main\<close>

text \<open>
  \<^verbatim>\<open>sipedge(&ctx.sip_ctx, nonce, &u0, &v0)\<close> is declared in cuckoo.h; the scan
  takes it as the function parameter \<open>sipedge\<close>, from a nonce to the pair of
  its endpoints.

  \<^verbatim>\<open>for (nu -= min, nv -= min; us[nu] != vs[nv]; nu++, nv++) ;\<close>
\<close>

partial_function (option) join_loop ::
  "node_t list \<Rightarrow> node_t list \<Rightarrow> u32 \<Rightarrow> u32 \<Rightarrow> (u32 \<times> u32) option"
where
  "join_loop us vs nu nv =
     (if us ! unat nu \<noteq> vs ! unat nv then join_loop us vs (nu + 1) (nv + 1)
      else Some (nu, nv))"

declare join_loop.simps [code]

text \<open>
  \<^verbatim>\<open>while (nu--) cycle.insert(edge(us[(nu+1)&~1], us[nu|1]));\<close> and
  \<^verbatim>\<open>while (nv--) cycle.insert(edge(vs[nv|1], vs[(nv+1)&~1]));\<close>;
  \<^verbatim>\<open>std::set<edge>\<close> is a set of pairs.
\<close>

function cycle_us :: "node_t list \<Rightarrow> u32 \<Rightarrow> (node_t \<times> node_t) set \<Rightarrow> (node_t \<times> node_t) set" where
  "cycle_us us nu cycle =
     (if nu \<noteq> 0 then
        cycle_us us (nu - 1)
          (insert (us ! unat (((nu - 1) + 1) AND NOT 1), us ! unat ((nu - 1) OR 1)) cycle)
      else cycle)"
  by pat_completeness auto
termination
  by (relation "measure (\<lambda>(us, nu, cycle). unat nu)") (auto simp add: unat_minus_one unat_gt_0)

declare cycle_us.simps [simp del]

function cycle_vs :: "node_t list \<Rightarrow> u32 \<Rightarrow> (node_t \<times> node_t) set \<Rightarrow> (node_t \<times> node_t) set" where
  "cycle_vs vs nv cycle =
     (if nv \<noteq> 0 then
        cycle_vs vs (nv - 1)
          (insert (vs ! unat ((nv - 1) OR 1), vs ! unat (((nv - 1) + 1) AND NOT 1)) cycle)
      else cycle)"
  by pat_completeness auto
termination
  by (relation "measure (\<lambda>(vs, nv, cycle). unat nv)") (auto simp add: unat_minus_one unat_gt_0)

declare cycle_vs.simps [simp del]

text \<open>
  The rescan of the alive edges,
  \<^verbatim>\<open>for (nonce_t nce = n = 0; nce < HALFSIZE; nce++)\<close>; \<open>nonce\<close> is the
  variable of the enclosing loop (the edge that closed the cycle).  The test
  \<^verbatim>\<open>!(bits[nce/32] >> (nce%32) & 1)\<close> on the host copy of the edge bits is the
  expression of \<^verbatim>\<open>shrinkingset::test\<close>.  The function returns the set
  \<^verbatim>\<open>cycle\<close> and the count \<^verbatim>\<open>n\<close> as they are after the loop, and what was
  printed.
\<close>

function solution_scan ::
  "params \<Rightarrow> (nonce_t \<Rightarrow> node_t \<times> node_t) \<Rightarrow> u32 list \<Rightarrow> nonce_t \<Rightarrow> nonce_t \<Rightarrow>
   (node_t \<times> node_t) set \<Rightarrow> u32 \<Rightarrow> event list \<Rightarrow> (node_t \<times> node_t) set \<times> u32 \<times> event list"
where
  "solution_scan P sipedge bits nonce nce cycle n out =
     (if nce < HALFSIZE P then
        (if shrinkingset_test bits nce then
           (let e = sipedge nce in
            if e \<in> cycle then
              solution_scan P sipedge bits nonce (nce + 1)
                (if 2 < PROOFSIZE P then cycle - {e} else cycle) (n + 1)
                (out @ [SolutionNonce nonce])
            else solution_scan P sipedge bits nonce (nce + 1) cycle n out)
         else solution_scan P sipedge bits nonce (nce + 1) cycle n out)
      else (cycle, n, out))"
  by pat_completeness auto
termination
proof (relation "measure (\<lambda>(P, sipedge, bits, nonce, nce, cycle, n, out).
                    unat (HALFSIZE P) - unat nce)", goal_cases)
  case 1
  show ?case by simp
next
  case (2 P sipedge bits nonce nce cycle n out)
  then show ?case using unat_Suc_less[of nce "HALFSIZE P"] by (simp add: word_less_nat_alt)
next
  case (3 P sipedge bits nonce nce cycle n out)
  then show ?case using unat_Suc_less[of nce "HALFSIZE P"] by (simp add: word_less_nat_alt)
next
  case (4 P sipedge bits nonce nce cycle n out)
  then show ?case using unat_Suc_less[of nce "HALFSIZE P"] by (simp add: word_less_nat_alt)
qed

declare solution_scan.simps [simp del]

text \<open>
  The block \<^verbatim>\<open>if (len == PROOFSIZE) { ... }\<close>: the solution is printed and
  \<^verbatim>\<open>assert(n==PROOFSIZE)\<close> is checked.  It returns what it printed.
\<close>

definition solution ::
  "params \<Rightarrow> (nonce_t \<Rightarrow> node_t \<times> node_t) \<Rightarrow> u32 list \<Rightarrow> nonce_t \<Rightarrow>
   node_t list \<Rightarrow> node_t list \<Rightarrow> u32 \<Rightarrow> u32 \<Rightarrow> event list result"
where
  "solution P sipedge bits nonce us vs nu nv =
     (let cycle = cycle_vs vs nv (cycle_us us nu {(us ! 0, vs ! 0)});
          (cycle', n, out) = solution_scan P sipedge bits nonce 0 cycle 0 [Solution]
      in if n = of_nat (PROOFSIZE P) then Return (out @ [Newline]) else AssertFailed out)"

text \<open>
  \<^verbatim>\<open>while (nu--) cuckoo.set(us[nu+1], us[nu]);\<close> (and the same loop on
  \<^verbatim>\<open>vs\<close>, \<^verbatim>\<open>nv\<close>): the shorter trail is reversed into the table.
\<close>

function reverse_trail :: "params \<Rightarrow> u64 list \<Rightarrow> node_t list \<Rightarrow> u32 \<Rightarrow> u64 list option" where
  "reverse_trail P cuckoo us nu =
     (if nu \<noteq> 0 then
        (case cuckoo_hash_set P cuckoo (us ! unat ((nu - 1) + 1)) (us ! unat (nu - 1)) of
           None \<Rightarrow> None
         | Some cuckoo' \<Rightarrow> reverse_trail P cuckoo' us (nu - 1))
      else Some cuckoo)"
  by pat_completeness auto
termination
  by (relation "measure (\<lambda>(P, cuckoo, us, nu). unat nu)") (auto simp add: unat_minus_one unat_gt_0)

declare reverse_trail.simps [simp del]

text \<open>Sequencing of calls that may exit, fail an assertion or not return.\<close>

definition and_then :: "'a result option \<Rightarrow> ('a \<Rightarrow> 'b result option) \<Rightarrow> 'b result option" where
  "and_then m f =
     (case m of
        None \<Rightarrow> None
      | Some (Return x) \<Rightarrow> f x
      | Some (Exit c evs) \<Rightarrow> Some (Exit c evs)
      | Some (AssertFailed evs) \<Rightarrow> Some (AssertFailed evs))"

definition set_then :: "u64 list option \<Rightarrow> (u64 list \<Rightarrow> 'b result option) \<Rightarrow> 'b result option" where
  "set_then m f = (case m of None \<Rightarrow> None | Some cuckoo \<Rightarrow> f cuckoo)"

text \<open>
  The body of the scan for one alive \<^verbatim>\<open>nonce\<close>, on the table and the two
  trail arrays; it returns them with what it printed.
\<close>

type_synonym finder = "u64 list \<times> node_t list \<times> node_t list"

definition process_edge ::
  "params \<Rightarrow> (nonce_t \<Rightarrow> node_t \<times> node_t) \<Rightarrow> u32 list \<Rightarrow> nonce_t \<Rightarrow> finder \<Rightarrow>
   (finder \<times> event list) result option"
where
  "process_edge P sipedge bits nonce = (\<lambda>(cuckoo, us, vs).
     (let (u0, v0) = sipedge nonce in
      if u0 = 0 then Some (Return ((cuckoo, us, vs), []))
      else
        and_then (cuckoo_hash_lookup P cuckoo u0) (\<lambda>u.
        and_then (cuckoo_hash_lookup P cuckoo v0) (\<lambda>v.
        and_then (path P cuckoo u (us[0 := u0])) (\<lambda>(nu, us).
        and_then (path P cuckoo v (vs[0 := v0])) (\<lambda>(nv, vs).
          if us ! unat nu = vs ! unat nv then
            (let min = (if nu < nv then nu else nv) in
             case join_loop us vs (nu - min) (nv - min) of
               None \<Rightarrow> None
             | Some (nu, nv) \<Rightarrow>
                 (let len = nu + nv + 1;
                      found = [CycleFound len (ucast ((nonce * 100) div HALFSIZE P))]
                  in if len = of_nat (PROOFSIZE P) then
                       (case solution P sipedge bits nonce us vs nu nv of
                          Return evs \<Rightarrow> Some (Return ((cuckoo, us, vs), found @ evs))
                        | Exit c evs \<Rightarrow> Some (Exit c (found @ evs))
                        | AssertFailed evs \<Rightarrow> Some (AssertFailed (found @ evs)))
                     else Some (Return ((cuckoo, us, vs), found))))
          else if nu < nv then
            set_then (reverse_trail P cuckoo us nu) (\<lambda>cuckoo.
            set_then (cuckoo_hash_set P cuckoo u0 v0) (\<lambda>cuckoo.
              Some (Return ((cuckoo, us, vs), []))))
          else
            set_then (reverse_trail P cuckoo vs nv) (\<lambda>cuckoo.
            set_then (cuckoo_hash_set P cuckoo v0 u0) (\<lambda>cuckoo.
              Some (Return ((cuckoo, us, vs), []))))))))))"

text \<open>
  \<^verbatim>\<open>for (nonce_t nonce = block; nonce < block+32 && nonce < HALFSIZE; nonce++)\<close>
\<close>

function find_inner ::
  "params \<Rightarrow> (nonce_t \<Rightarrow> node_t \<times> node_t) \<Rightarrow> u32 list \<Rightarrow> nonce_t \<Rightarrow> nonce_t \<Rightarrow> finder \<Rightarrow>
   event list \<Rightarrow> (finder \<times> event list) result option"
where
  "find_inner P sipedge bits block nonce st out =
     (if nonce < block + 32 \<and> nonce < HALFSIZE P then
        (if shrinkingset_test bits nonce then
           (case process_edge P sipedge bits nonce st of
              None \<Rightarrow> None
            | Some (Return (st', evs)) \<Rightarrow>
                find_inner P sipedge bits block (nonce + 1) st' (out @ evs)
            | Some (Exit c evs) \<Rightarrow> Some (Exit c (out @ evs))
            | Some (AssertFailed evs) \<Rightarrow> Some (AssertFailed (out @ evs)))
         else find_inner P sipedge bits block (nonce + 1) st out)
      else Some (Return (st, out)))"
  by pat_completeness auto
termination
proof (relation "measure (\<lambda>(P, sipedge, bits, block, nonce, st, out).
                    unat (HALFSIZE P) - unat nonce)", goal_cases)
  case 1
  show ?case by simp
next
  case (2 P sipedge bits block nonce st out x2 x1 x y)
  then show ?case using unat_Suc_less[of nonce "HALFSIZE P"] by (auto simp add: word_less_nat_alt)
next
  case (3 P sipedge bits block nonce st out)
  then show ?case using unat_Suc_less[of nonce "HALFSIZE P"] by (auto simp add: word_less_nat_alt)
qed

declare find_inner.simps [simp del]

text \<open>\<^verbatim>\<open>for (nonce_t block = 0; block < HALFSIZE; block += 32)\<close>\<close>

lemma unat_HALFSIZE_le: "unat (HALFSIZE P) < 2 ^ 63"
proof -
  have "unat (SIZE P) < 2 ^ 64" using unsigned_less[of "SIZE P"] by simp
  then show ?thesis by (simp add: HALFSIZE_def unat_div)
qed

function find_outer ::
  "params \<Rightarrow> (nonce_t \<Rightarrow> node_t \<times> node_t) \<Rightarrow> u32 list \<Rightarrow> nonce_t \<Rightarrow> finder \<Rightarrow>
   event list \<Rightarrow> (finder \<times> event list) result option"
where
  "find_outer P sipedge bits block st out =
     (if block < HALFSIZE P then
        (case find_inner P sipedge bits block block st out of
           None \<Rightarrow> None
         | Some (Return (st', out')) \<Rightarrow> find_outer P sipedge bits (block + 32) st' out'
         | Some (Exit c evs) \<Rightarrow> Some (Exit c evs)
         | Some (AssertFailed evs) \<Rightarrow> Some (AssertFailed evs))
      else Some (Return (st, out)))"
  by pat_completeness auto
termination
proof (relation "measure (\<lambda>(P, sipedge, bits, block, st, out).
                    unat (HALFSIZE P) - unat block)", goal_cases)
  case 1
  show ?case by simp
next
  case (2 P sipedge bits block st out x2 x1 x y)
  then have lt: "unat block < unat (HALFSIZE P)" by (simp add: word_less_nat_alt)
  then have "unat block + unat (32 :: u64) < 2 ^ 64" using unat_HALFSIZE_le[of P] by simp
  then have "unat (block + 32) = unat block + 32"
    by (simp add: unat_add_lem [THEN iffD1])
  with lt show ?case by simp
qed

declare find_outer.simps [simp del]

section \<open>The load check and main\<close>

text \<open>\<^verbatim>\<open>for (u32 b = ~bits[i]; b; b &= b-1) cnt++;\<close>\<close>

lemma unat_and_pred_less: "b \<noteq> 0 \<Longrightarrow> unat (b AND (b - 1)) < unat b" for b :: u32
proof -
  assume "b \<noteq> 0"
  then have "unat (b - 1) < unat b" by (simp add: unat_minus_one unat_gt_0)
  moreover have "unat (b AND (b - 1)) \<le> unat (b - 1)"
    using word_and_le1[of b "b - 1"] by (simp add: word_le_nat_alt)
  ultimately show ?thesis by simp
qed

function popcount_loop :: "u32 \<Rightarrow> u32 \<Rightarrow> u32" where
  "popcount_loop b cnt = (if b \<noteq> 0 then popcount_loop (b AND (b - 1)) (cnt + 1) else cnt)"
  by pat_completeness auto
termination
  by (relation "measure (\<lambda>(b, cnt). unat b)") (simp_all add: unat_and_pred_less)

declare popcount_loop.simps [simp del]

text \<open>
  \<^verbatim>\<open>for (int i = 0; i < HALFSIZE/32; i++)\<close>, the index \<^verbatim>\<open>i\<close> a natural number.
\<close>

function count_loop :: "params \<Rightarrow> u32 list \<Rightarrow> nat \<Rightarrow> u32 \<Rightarrow> u32" where
  "count_loop P bits i cnt =
     (if i < unat (HALFSIZE P div 32)
      then count_loop P bits (Suc i) (popcount_loop (NOT (bits ! i)) cnt)
      else cnt)"
  by pat_completeness auto
termination
  by (relation "measure (\<lambda>(P, bits, i, cnt). unat (HALFSIZE P div 32) - i)") auto

declare count_loop.simps [simp del]

text \<open>
  \<^verbatim>\<open>main\<close> from the copy of the edge bits to the host on: the load is computed
  and reported, the run stops when it is 90 or more, and otherwise the
  surviving edges are scanned; \<^verbatim>\<open>return 0\<close> ends the process with status 0.
  The arrays \<^verbatim>\<open>us\<close> and \<^verbatim>\<open>vs\<close> start zeroed (they are not initialised in
  the source; every element the scan reads has been written by it before).
\<close>

definition load_of :: "params \<Rightarrow> u32 \<Rightarrow> u32" where
  "load_of P cnt = ucast ((100 * (ucast cnt :: u64)) div CUCKOO_SIZE P)"

definition find_cycles :: "params \<Rightarrow> (nonce_t \<Rightarrow> node_t \<times> node_t) \<Rightarrow> u32 list \<Rightarrow> unit result option" where
  "find_cycles P sipedge bits =
     (let cnt = count_loop P bits 0 0;
          load = load_of P cnt
      in if load \<ge> 90 then Some (Exit 0 [FinalLoad load, Overloaded])
         else
           (case find_outer P sipedge bits 0
                   (cuckoo_hash_new P,
                    replicate (unat (MAXPATHLEN P)) 0, replicate (unat (MAXPATHLEN P)) 0)
                   [FinalLoad load] of
              None \<Rightarrow> None
            | Some (Return (st, out)) \<Rightarrow> Some (Exit 0 out)
            | Some (Exit c evs) \<Rightarrow> Some (Exit c evs)
            | Some (AssertFailed evs) \<Rightarrow> Some (AssertFailed evs)))"

text \<open>
  \<^verbatim>\<open>main\<close> with the header already turned into the two generators, the thread
  count \<^verbatim>\<open>nthreads\<close> and the number of rounds \<^verbatim>\<open>ntrims\<close> (as the unsigned
  value the loop compares \<^verbatim>\<open>round\<close> with).
\<close>

definition main ::
  "params \<Rightarrow> (nonce_t \<Rightarrow> u32 \<Rightarrow> node_t) \<Rightarrow> (nonce_t \<Rightarrow> node_t \<times> node_t) \<Rightarrow> nat \<Rightarrow> nat \<Rightarrow>
   unit result option"
where
  "main P dipnode sipedge nthreads ntrims =
     find_cycles P sipedge (trim P dipnode nthreads ntrims (alive_init P))"

section \<open>Verification: DegreeCounter\<close>

text \<open>The two bits of node \<open>u\<close> in the counter array.\<close>

definition once_bit :: "u32 list \<Rightarrow> node_t \<Rightarrow> bool" where
  "once_bit bits u \<longleftrightarrow> bit (bits ! unat (u div 16)) (2 * unat (u mod 16))"

definition twice_bit :: "u32 list \<Rightarrow> node_t \<Rightarrow> bool" where
  "twice_bit bits u \<longleftrightarrow> bit (bits ! unat (u div 16)) (Suc (2 * unat (u mod 16)))"

lemma mod16_lt: "unat ((u::node_t) mod 16) < 16"
  by (simp add: unat_mod_distrib) 

lemma node_eq_iff: "(u::node_t) = x \<longleftrightarrow> unat (u div 16) = unat (x div 16) \<and> unat (u mod 16) = unat (x mod 16)"
  by (metis div_mult_mod_eq word_unat_eq_iff)

lemma and2_eq: "(w::u32) AND 2 = (if bit w (Suc 0) then 2 else 0)"
  by (rule bit_eqI) (auto simp add: bit_and_iff bit_2_iff)

lemma and2_iff: "(drop_bit k (w::u32) AND 2 \<noteq> 0) \<longleftrightarrow> bit w (Suc k)"
  by (simp add: and2_eq bit_drop_bit_eq)

lemma bit_pow: "bit (2 ^ k :: u32) n \<longleftrightarrow> n = k \<and> k < 32"
  by (auto simp add: bit_exp_iff)

lemma bit_pow2: "bit (2 ^ k * 2 :: u32) n \<longleftrightarrow> n = Suc k \<and> k < 31"
proof -
  have "(2 ^ k * 2 :: u32) = 2 ^ Suc k" by simp
  then show ?thesis by (auto simp only: bit_pow)
qed

lemma cond_iff:
  assumes "k < 31"
  shows "((w::u32) AND (2 ^ k * 2 OR 2 ^ k) = 2 ^ k) \<longleftrightarrow> bit w k \<and> \<not> bit w (Suc k)"
proof
  assume eq: "w AND (2 ^ k * 2 OR 2 ^ k) = 2 ^ k"
  have "bit (w AND (2 ^ k * 2 OR 2 ^ k)) n = bit (2 ^ k :: u32) n" for n
    using eq by simp
  from this[of k] this[of "Suc k"] assms show "bit w k \<and> \<not> bit w (Suc k)"
    by (simp only: bit_and_iff bit_or_iff bit_pow bit_pow2) simp
next
  assume a: "bit w k \<and> \<not> bit w (Suc k)"
  show "w AND (2 ^ k * 2 OR 2 ^ k) = 2 ^ k"
  proof (rule bit_eqI)
    fix n
    show "bit (w AND (2 ^ k * 2 OR 2 ^ k)) n = bit (2 ^ k :: u32) n"
      using a assms by (simp only: bit_and_iff bit_or_iff bit_pow bit_pow2) auto
  qed
qed

lemma twice_set_set_eq:
  "twice_set_set bits x =
     (let i = unat (x div 16); k = 2 * unat (x mod 16); w = bits ! i in
      bits[i := (if bit w k \<and> \<not> bit w (Suc k) then (w OR 2 ^ k) OR 2 ^ k * 2
                 else w OR 2 ^ k)])"
proof -
  have k: "2 * unat (x mod 16) < 31" using mod16_lt[of x] by simp
  show ?thesis
    by (cases "unat (x div 16) < length bits")
       (auto simp add: twice_set_set_def atomicOr_def Let_def cond_iff[OF k] list_update_beyond)
qed

lemma nodes_differ:
  "(u::node_t) \<noteq> x \<Longrightarrow> unat (u div 16) = unat (x div 16) \<Longrightarrow> unat (u mod 16) \<noteq> unat (x mod 16)"
  using node_eq_iff by blast

lemma once_set: "unat (x div 16) < length bits \<Longrightarrow>
  once_bit (twice_set_set bits x) u \<longleftrightarrow> once_bit bits u \<or> u = x"
  using mod16_lt[of u] mod16_lt[of x]
  by (cases "u = x")
     (auto simp add: twice_set_set_eq Let_def once_bit_def nth_list_update bit_or_iff bit_pow bit_pow2
           dest: nodes_differ)

lemma twice_set: "unat (x div 16) < length bits \<Longrightarrow>
  twice_bit (twice_set_set bits x) u \<longleftrightarrow> twice_bit bits u \<or> (u = x \<and> once_bit bits x)"
  using mod16_lt[of u] mod16_lt[of x]
  by (cases "u = x")
     (auto simp add: twice_set_set_eq Let_def once_bit_def twice_bit_def nth_list_update bit_or_iff bit_pow bit_pow2
           dest: nodes_differ)


lemma length_twice_set_set [simp]: "length (twice_set_set bits x) = length bits"
  by (simp add: twice_set_set_eq Let_def)


lemma foldl_once_bit:
  "\<forall>x\<in>set xs. unat (x div 16) < length bits \<Longrightarrow>
   once_bit (foldl twice_set_set bits xs) u \<longleftrightarrow> once_bit bits u \<or> u \<in> set xs"
  by (induction xs arbitrary: bits) (auto simp add: once_set length_twice_set_set)

lemma foldl_twice_bit:
  "\<forall>x\<in>set xs. unat (x div 16) < length bits \<Longrightarrow>
   twice_bit (foldl twice_set_set bits xs) u \<longleftrightarrow>
     twice_bit bits u \<or> (once_bit bits u \<and> u \<in> set xs) \<or> 2 \<le> count_list xs u"
proof (induction xs arbitrary: bits)
  case Nil
  then show ?case by simp
next
  case (Cons x xs)
  have "count_list xs u = 0 \<longleftrightarrow> u \<notin> set xs" by (simp add: count_list_0_iff)
  with Cons show ?case
    by (auto simp add: once_set twice_set length_twice_set_set)
qed

lemma reset_bits:
  "unat (u div 16) < unat (TWICE_WORDS P) \<Longrightarrow> \<not> once_bit (twice_set_reset P) u \<and> \<not> twice_bit (twice_set_reset P) u"
  by (simp add: twice_set_reset_def once_bit_def twice_bit_def)

text \<open>
  Claim C7.  After \<^verbatim>\<open>reset()\<close>, and after any sequence \<open>xs\<close> of calls of
  \<^verbatim>\<open>set\<close> on nodes inside the counter array, \<^verbatim>\<open>test(u)\<close> is nonzero exactly
  when \<open>u\<close> was marked at least twice.  The right-hand side only counts the
  occurrences of \<open>u\<close>: one mark leaves the test zero, and neither the order of
  the marks nor further marks of any node change a nonzero test back.
\<close>

theorem twice_set_test_iff_marked_twice:
  assumes "\<forall>x\<in>set xs. unat (x div 16) < unat (TWICE_WORDS P)"
    and "unat (u div 16) < unat (TWICE_WORDS P)"
  shows "twice_set_test (foldl twice_set_set (twice_set_reset P) xs) u \<noteq> 0 \<longleftrightarrow> 2 \<le> count_list xs u"
proof -
  have "\<forall>x\<in>set xs. unat (x div 16) < length (twice_set_reset P)"
    using assms(1) by (simp add: twice_set_reset_def)
  from foldl_twice_bit[OF this, of u] reset_bits[OF assms(2)]
  show ?thesis by (simp add: twice_set_test_def and2_iff twice_bit_def)
qed

text \<open>Witness for C7: node 5 is marked twice, node 7 once.\<close>

theorem twice_set_test_witness:
  "twice_set_test (foldl twice_set_set (twice_set_reset \<lparr>SIZESHIFT = 9, PART_BITS = 0, PROOFSIZE = 4\<rparr>) [5, 7, 5]) 5 \<noteq> 0
   \<and> twice_set_test (foldl twice_set_set (twice_set_reset \<lparr>SIZESHIFT = 9, PART_BITS = 0, PROOFSIZE = 4\<rparr>) [5, 7, 5]) 7 = 0"
  using twice_set_test_iff_marked_twice[of "[5, 7, 5]" "\<lparr>SIZESHIFT = 9, PART_BITS = 0, PROOFSIZE = 4\<rparr>" 5]
        twice_set_test_iff_marked_twice[of "[5, 7, 5]" "\<lparr>SIZESHIFT = 9, PART_BITS = 0, PROOFSIZE = 4\<rparr>" 7]
  by (simp add: TWICE_WORDS_def ONCE_BITS_def HALFSIZE_def SIZE_def)


section \<open>Verification: AliveSet\<close>

text \<open>
  The number of alive edges: the nonces below \<^verbatim>\<open>HALFSIZE\<close> for which
  \<^verbatim>\<open>test\<close> holds.
\<close>

definition alive_count :: "params \<Rightarrow> u32 list \<Rightarrow> nat" where
  "alive_count P bits = length (filter (shrinkingset_test bits) (map of_nat [0..<unat (HALFSIZE P)]))"

text \<open>Every bit set in \<open>a\<close> (a dead edge) is set in \<open>b\<close>.\<close>

definition dead_kept :: "u32 list \<Rightarrow> u32 list \<Rightarrow> bool" where
  "dead_kept a b \<longleftrightarrow> length b = length a \<and> (\<forall>i<length a. \<forall>k. bit (a ! i) k \<longrightarrow> bit (b ! i) k)"

lemma dead_kept_refl [simp]: "dead_kept a a"
  by (simp add: dead_kept_def)

lemma dead_kept_trans: "dead_kept a b \<Longrightarrow> dead_kept b c \<Longrightarrow> dead_kept a c"
  by (simp add: dead_kept_def)

lemma shrinkingset_test_iff: "shrinkingset_test bits n \<longleftrightarrow> \<not> bit (bits ! unat (n div 32)) (unat (n mod 32))"
  by (simp add: shrinkingset_test_def and_one_eq bit_iff_odd_drop_bit even_iff_mod_2_eq_zero)

lemma mod32_lt: "unat ((n::nonce_t) mod 32) < 32"
  by (simp add: unat_mod_distrib)

lemma dead_kept_reset: "dead_kept bits (shrinkingset_reset bits n)"
  by (cases "unat (n div 32) < length bits")
     (auto simp add: dead_kept_def shrinkingset_reset_def nth_list_update bit_or_iff list_update_beyond)

lemma reset_kills: "unat (n div 32) < length bits \<Longrightarrow> \<not> shrinkingset_test (shrinkingset_reset bits n) n"
  using mod32_lt[of n]
  by (simp add: shrinkingset_test_iff shrinkingset_reset_def bit_or_iff bit_pow)

lemma reset_dead_noop: "\<not> shrinkingset_test bits n \<Longrightarrow> shrinkingset_reset bits n = bits"
proof -
  assume d: "\<not> shrinkingset_test bits n"
  have "bits ! unat (n div 32) OR 2 ^ unat (n mod 32) = bits ! unat (n div 32)"
    using d mod32_lt[of n]
    by (intro bit_eqI) (auto simp add: shrinkingset_test_iff bit_or_iff bit_pow)
  then show ?thesis by (simp add: shrinkingset_reset_def)
qed

lemma dead_kept_test:
  "dead_kept a b \<Longrightarrow> unat (m div 32) < length a \<Longrightarrow> \<not> shrinkingset_test a m \<Longrightarrow> \<not> shrinkingset_test b m"
  by (simp add: dead_kept_def shrinkingset_test_iff)

lemma dead_kept_kill_inner:
  "dead_kept alive (kill_inner P dipnode nonleaf uorv part alive32 nonce alive)"
proof (induction P dipnode nonleaf uorv part alive32 nonce alive rule: kill_inner.induct)
  case (1 P dipnode nonleaf uorv part alive32 nonce alive)
  show ?case
  proof (cases "alive32 = 0")
    case True
    then show ?thesis by (subst kill_inner.simps) simp
  next
    case False
    let ?alive' = "(if alive32 AND 1 \<noteq> 0 then
                (let u = dipnode nonce uorv in
                 if u AND ucast (PART_MASK P) = ucast part
                 then (if twice_set_test nonleaf (drop_bit (PART_BITS P) u) = 0
                       then shrinkingset_reset alive nonce else alive)
                 else alive)
              else alive)"
    have "dead_kept alive ?alive'" by (simp add: Let_def dead_kept_reset)
    moreover have "dead_kept ?alive' (kill_inner P dipnode nonleaf uorv part (drop_bit 1 alive32) (nonce + 1) ?alive')"
      using 1[OF False] .
    ultimately show ?thesis
      using False by (subst kill_inner.simps) (auto intro: dead_kept_trans)
  qed
qed


lemma dead_kept_kill_thread:
  "dead_kept alive (kill_leaf_edges_thread P dipnode nonleaf nthreads uorv part block alive)"
proof (induction P dipnode nonleaf nthreads uorv part block alive rule: kill_leaf_edges_thread.induct)
  case (1 P dipnode nonleaf nthreads uorv part block alive)
  show ?case
  proof (cases "block < unat (HALFSIZE P) \<and> 0 < nthreads")
    case True
    from dead_kept_trans[OF dead_kept_kill_inner 1[OF True]] True
    show ?thesis by (subst kill_leaf_edges_thread.simps) simp
  next
    case False
    then show ?thesis by (subst kill_leaf_edges_thread.simps) auto
  qed
qed

lemma dead_kept_foldl:
  assumes "\<And>a x. dead_kept a (f a x)"
  shows "dead_kept a (foldl f a xs)"
proof (induction xs arbitrary: a)
  case Nil
  show ?case by simp
next
  case (Cons x xs)
  from dead_kept_trans[OF assms Cons] show ?case by simp
qed

lemma dead_kept_kill_leaf_edges:
  "dead_kept alive (kill_leaf_edges P dipnode nonleaf nthreads uorv part alive)"
  unfolding kill_leaf_edges_def by (rule dead_kept_foldl) (rule dead_kept_kill_thread)

lemma dead_kept_trim_pass: "dead_kept alive (trim_pass P dipnode nthreads alive up)"
  by (cases up) (simp add: trim_pass_def dead_kept_kill_leaf_edges)

lemma dead_kept_trim_round: "dead_kept alive (trim_round P dipnode nthreads alive)"
  unfolding trim_round_def by (rule dead_kept_foldl) (rule dead_kept_trim_pass)

lemma dead_kept_trim: "dead_kept alive (trim P dipnode nthreads ntrims alive)"
proof (induction ntrims)
  case 0
  show ?case by (simp add: trim_def)
next
  case (Suc k)
  from dead_kept_trans[OF Suc dead_kept_trim_round] show ?case by (simp add: trim_def)
qed

lemma wf_params_bounds: "wf_params P \<Longrightarrow> 6 \<le> SIZESHIFT P \<and> SIZESHIFT P \<le> 58 \<and> IDXSHIFT P \<le> SIZESHIFT P"
  by (auto simp add: wf_params_def IDXSHIFT_def)

lemma unat_pow2: "n < LENGTH('a) \<Longrightarrow> unat (2 ^ n :: 'a::len word) = 2 ^ n"
  by (simp add: unsigned_push_bit_eq [where ?'a = nat and w = "1::'a word", simplified] take_bit_nat_eq_self_iff)

lemma unat_SIZE: "wf_params P \<Longrightarrow> unat (SIZE P) = 2 ^ SIZESHIFT P"
  using wf_params_bounds[of P] by (simp add: SIZE_def unat_pow2)

lemma unat_HALFSIZE: "wf_params P \<Longrightarrow> unat (HALFSIZE P) = 2 ^ (SIZESHIFT P - 1)"
proof -
  assume wf: "wf_params P"
  then obtain k where k: "SIZESHIFT P = Suc k" using wf_params_bounds[of P] by (cases "SIZESHIFT P") auto
  show ?thesis using unat_SIZE[OF wf] by (simp add: HALFSIZE_def unat_div k)
qed

lemma unat_HALFSIZE_div_32: "wf_params P \<Longrightarrow> unat (HALFSIZE P div 32) = 2 ^ (SIZESHIFT P - 6)"
proof -
  assume wf: "wf_params P"
  then obtain k where k: "SIZESHIFT P = k + 6" using wf_params_bounds[of P]
    by (metis add.commute le_Suc_ex)
  have "(2::nat) ^ (5 + k) = 2 ^ k * 32" by (simp add: power_add)
  then show ?thesis using unat_HALFSIZE[OF wf] by (simp add: unat_div k)
qed

lemma nonce_in_range:
  assumes "wf_params P" "length bits = unat (HALFSIZE P div 32)" "n < HALFSIZE P"
  shows "unat (n div 32) < length bits"
proof -
  obtain k where k: "SIZESHIFT P = k + 6" using wf_params_bounds[OF assms(1)]
    by (metis add.commute le_Suc_ex)
  have "(2::nat) ^ (5 + k) = 2 ^ k * 32" by (simp add: power_add)
  moreover have "unat n < 2 ^ (5 + k)" using assms(3) unat_HALFSIZE[OF assms(1)] by (simp add: word_less_nat_alt k)
  ultimately have "unat n div 32 < 2 ^ k" by (simp add: less_mult_imp_div_less)
  then show ?thesis using assms(2) unat_HALFSIZE_div_32[OF assms(1)] by (simp add: unat_div k)
qed

lemma length_filter_mono:
  "(\<And>x. x \<in> set xs \<Longrightarrow> p x \<Longrightarrow> q x) \<Longrightarrow> length (filter p xs) \<le> length (filter q xs)"
  by (induction xs) auto

lemma alive_count_mono:
  assumes "wf_params P" "length a = unat (HALFSIZE P div 32)" "dead_kept a b"
  shows "alive_count P b \<le> alive_count P a"
  unfolding alive_count_def
proof (rule length_filter_mono)
  fix x assume x: "x \<in> set (map of_nat [0..<unat (HALFSIZE P)])" and t: "shrinkingset_test b x"
  from x obtain k where k: "k < unat (HALFSIZE P)" "x = of_nat k" by auto
  have "unat (of_nat k :: nonce_t) \<le> k" by (simp add: unat_of_nat)
  then have "x < HALFSIZE P" using k by (simp add: word_less_nat_alt)
  from nonce_in_range[OF assms(1,2) this] dead_kept_test[OF assms(3)] t
  show "shrinkingset_test a x" by blast
qed

text \<open>
  Claim C5.  For an edge set of \<^verbatim>\<open>HALFSIZE/32\<close> words and nonces \<open>n\<close>, \<open>m\<close>
  below \<^verbatim>\<open>HALFSIZE\<close>: after \<^verbatim>\<open>reset(n)\<close> the edge \<open>n\<close> is dead; \<^verbatim>\<open>reset(n)\<close>
  leaves the set unchanged when \<open>n\<close> is already dead; an edge \<open>m\<close> that is dead
  stays dead through \<^verbatim>\<open>reset\<close>, through a launch of \<^verbatim>\<open>kill_leaf_edges\<close> and
  through any number of trimming rounds; and the number of alive edges does not
  grow in a trimming round, from any round to the next.
\<close>

theorem alive_set_one_directional:
  assumes "wf_params P" and "length bits = unat (HALFSIZE P div 32)"
    and "n < HALFSIZE P" and "m < HALFSIZE P"
  shows "\<not> shrinkingset_test (shrinkingset_reset bits n) n
       \<and> (\<not> shrinkingset_test bits n \<longrightarrow> shrinkingset_reset bits n = bits)
       \<and> (\<not> shrinkingset_test bits m \<longrightarrow> \<not> shrinkingset_test (shrinkingset_reset bits n) m)
       \<and> (\<not> shrinkingset_test bits m \<longrightarrow>
            \<not> shrinkingset_test (kill_leaf_edges P dipnode nonleaf nthreads uorv part bits) m)
       \<and> (\<not> shrinkingset_test bits m \<longrightarrow>
            \<not> shrinkingset_test (trim P dipnode nthreads ntrims bits) m)
       \<and> alive_count P (trim_round P dipnode nthreads bits) \<le> alive_count P bits
       \<and> alive_count P (trim P dipnode nthreads (Suc ntrims) bits)
            \<le> alive_count P (trim P dipnode nthreads ntrims bits)"
proof -
  note n = nonce_in_range[OF assms(1,2,3)] and m = nonce_in_range[OF assms(1,2,4)]
  have len: "length (trim P dipnode nthreads ntrims bits) = unat (HALFSIZE P div 32)"
    using dead_kept_trim[of bits P dipnode nthreads ntrims] assms(2) by (simp add: dead_kept_def)
  have "alive_count P (trim_round P dipnode nthreads (trim P dipnode nthreads ntrims bits))
          \<le> alive_count P (trim P dipnode nthreads ntrims bits)"
    by (rule alive_count_mono[OF assms(1) len dead_kept_trim_round])
  then have step: "alive_count P (trim P dipnode nthreads (Suc ntrims) bits)
            \<le> alive_count P (trim P dipnode nthreads ntrims bits)"
    by (simp add: trim_def)
  show ?thesis
    using reset_kills[OF n] reset_dead_noop[of bits n]
      dead_kept_test[OF dead_kept_reset m, of n]
      dead_kept_test[OF dead_kept_kill_leaf_edges m, of P dipnode nonleaf nthreads uorv part]
      dead_kept_test[OF dead_kept_trim m, of P dipnode nthreads ntrims]
      alive_count_mono[OF assms(1,2) dead_kept_trim_round, of P dipnode nthreads]
      step
    by blast
qed


text \<open>
  Witness for C5: 256 edges of which edge 0 is dead, two threads, the identity
  as edge generator.
\<close>

theorem alive_set_witness:
  "wf_params \<lparr>SIZESHIFT = 9, PART_BITS = 0, PROOFSIZE = 4\<rparr>
   \<and> \<not> shrinkingset_test (shrinkingset_reset [1, 0, 0, 0, 0, 0, 0, 0] 3) 3
   \<and> \<not> shrinkingset_test (shrinkingset_reset [1, 0, 0, 0, 0, 0, 0, 0] 3) 0
   \<and> \<not> shrinkingset_test
         (trim \<lparr>SIZESHIFT = 9, PART_BITS = 0, PROOFSIZE = 4\<rparr> (\<lambda>n s. n) 2 3 [1, 0, 0, 0, 0, 0, 0, 0]) 0
   \<and> alive_count \<lparr>SIZESHIFT = 9, PART_BITS = 0, PROOFSIZE = 4\<rparr>
         (trim_round \<lparr>SIZESHIFT = 9, PART_BITS = 0, PROOFSIZE = 4\<rparr> (\<lambda>n s. n) 2 [1, 0, 0, 0, 0, 0, 0, 0])
       \<le> alive_count \<lparr>SIZESHIFT = 9, PART_BITS = 0, PROOFSIZE = 4\<rparr> [1, 0, 0, 0, 0, 0, 0, 0]"
  using alive_set_one_directional[of "\<lparr>SIZESHIFT = 9, PART_BITS = 0, PROOFSIZE = 4\<rparr>"
          "[1, 0, 0, 0, 0, 0, 0, 0]" 3 0 "\<lambda>n s. n" "[]" 2 0 0 3]
  by (simp add: wf_params_def IDXSHIFT_def HALFSIZE_def SIZE_def shrinkingset_test_def)


section \<open>Verification: the overload guard\<close>

text \<open>
  Claim C2, as stated, fails on the exit status: a run with two surviving edges
  on a table of two slots has load 100; it prints the load and the diagnostic
  and ends through \<^verbatim>\<open>exit(0)\<close>, the status of a successful run.
\<close>

theorem overload_exit_status_counterexample:
  "90 \<le> load_of \<lparr>SIZESHIFT = 7, PART_BITS = 0, PROOFSIZE = 4\<rparr>
           (count_loop \<lparr>SIZESHIFT = 7, PART_BITS = 0, PROOFSIZE = 4\<rparr> [0xFFFFFFFC, 0xFFFFFFFF] 0 0)
   \<and> find_cycles \<lparr>SIZESHIFT = 7, PART_BITS = 0, PROOFSIZE = 4\<rparr> (\<lambda>n. (n + 1, n + 2))
         [0xFFFFFFFC, 0xFFFFFFFF]
       = Some (Exit 0 [FinalLoad 100, Overloaded])"
  by code_simp

text \<open>
  Claim C2, amended.  When the load computed from the surviving edges is 90 or
  more, the run prints the load and the diagnostic and ends with exit status 0.
  Nothing else is printed and the result does not depend on the edge generator:
  the scan of the edges has not begun.
\<close>

theorem overload_exits_before_scan:
  "90 \<le> load_of P (count_loop P bits 0 0) \<Longrightarrow>
   find_cycles P sipedge bits
     = Some (Exit 0 [FinalLoad (load_of P (count_loop P bits 0 0)), Overloaded])"
  by (simp add: find_cycles_def Let_def)

text \<open>Witness for C2: one surviving edge on a table of one slot.\<close>

theorem overload_exits_before_scan_witness:
  "find_cycles \<lparr>SIZESHIFT = 6, PART_BITS = 0, PROOFSIZE = 2\<rparr> (\<lambda>n. (n + 1, n + 2)) [0xFFFFFFFE]
     = Some (Exit 0 [FinalLoad (load_of \<lparr>SIZESHIFT = 6, PART_BITS = 0, PROOFSIZE = 2\<rparr>
          (count_loop \<lparr>SIZESHIFT = 6, PART_BITS = 0, PROOFSIZE = 2\<rparr> [0xFFFFFFFE] 0 0)), Overloaded])"
proof -
  have "90 \<le> load_of \<lparr>SIZESHIFT = 6, PART_BITS = 0, PROOFSIZE = 2\<rparr>
           (count_loop \<lparr>SIZESHIFT = 6, PART_BITS = 0, PROOFSIZE = 2\<rparr> [0xFFFFFFFE] 0 0)"
    by code_simp
  then show ?thesis by (rule overload_exits_before_scan)
qed

section \<open>Verification: path\<close>

text \<open>The last position of \<open>x\<close> in \<open>xs\<close> (for \<open>x\<close> in \<open>xs\<close>).\<close>

definition last_pos :: "'a list \<Rightarrow> 'a \<Rightarrow> nat" where
  "last_pos xs x = length (dropWhile (\<lambda>y. y \<noteq> x) (rev xs)) - 1"

lemma last_pos_snoc: "last_pos (xs @ [y]) x = (if y = x then length xs else last_pos xs x)"
  by (simp add: last_pos_def)

lemma path_search_eq:
  "unat n \<le> length us \<Longrightarrow>
   path_search us u n =
     (if u \<in> set (take (unat n) us) then of_nat (last_pos (take (unat n) us) u) else - 1)"
proof (induction us u n rule: path_search.induct)
  case (1 us u nu)
  show ?case
  proof (cases "nu = 0")
    case True
    then show ?thesis by (subst path_search.simps) simp
  next
    case False
    then have pos: "0 < unat nu" by (simp add: unat_gt_0)
    then have un: "unat (nu - 1) = unat nu - 1" by (simp add: unat_minus_one False)
    have lt: "unat nu - 1 < length us" using pos 1(2) by simp
    have tk: "take (unat nu) us = take (unat nu - 1) us @ [us ! (unat nu - 1)]"
      using take_Suc_conv_app_nth[OF lt] pos by simp
    show ?thesis
    proof (cases "us ! unat (nu - 1) = u")
      case True
      have "of_nat (unat nu - 1) = nu - 1" using un by (metis of_nat_unat ucast_id)
      then show ?thesis using True False lt
        by (subst path_search.simps) (simp add: tk last_pos_snoc un)
    next
      case ne: False
      have "path_search us u (nu - 1) =
        (if u \<in> set (take (unat (nu - 1)) us) then of_nat (last_pos (take (unat (nu - 1)) us) u) else - 1)"
        using 1(1) False ne 1(2) un by simp
      then show ?thesis using ne False
        by (subst path_search.simps) (auto simp add: tk last_pos_snoc un)
    qed
  qed
qed


text \<open>
  The node reached from \<open>u\<close> by \<open>k\<close> lookups that return, and the trail array
  after \<open>j\<close> steps of the loop of \<^verbatim>\<open>path\<close> started on \<open>us\<close>.
\<close>

fun follow :: "params \<Rightarrow> u64 list \<Rightarrow> node_t \<Rightarrow> nat \<Rightarrow> node_t option" where
  "follow P cuckoo u 0 = Some u"
| "follow P cuckoo u (Suc k) =
     (case follow P cuckoo u k of
        None \<Rightarrow> None
      | Some x \<Rightarrow> (case cuckoo_hash_lookup P cuckoo x of Some (Return y) \<Rightarrow> Some y | _ \<Rightarrow> None))"

fun trail :: "params \<Rightarrow> u64 list \<Rightarrow> node_t \<Rightarrow> node_t list \<Rightarrow> nat \<Rightarrow> node_t list" where
  "trail P cuckoo u us 0 = us"
| "trail P cuckoo u us (Suc j) = (trail P cuckoo u us j)[Suc j := the (follow P cuckoo u j)]"

lemma length_trail [simp]: "length (trail P cuckoo u us j) = length us"
  by (induction j) simp_all

lemma unat_MAXPATHLEN: "wf_params P \<Longrightarrow> unat (MAXPATHLEN P) = 8 * 2 ^ (SIZESHIFT P div 3)"
proof -
  assume "wf_params P"
  then have "SIZESHIFT P div 3 + 3 < 32" using wf_params_bounds[of P] by arith
  then have "unat (2 ^ (SIZESHIFT P div 3 + 3) :: u32) = 2 ^ (SIZESHIFT P div 3 + 3)"
    by (intro unat_pow2) simp
  moreover have "MAXPATHLEN P = 2 ^ (SIZESHIFT P div 3 + 3)"
    by (simp add: MAXPATHLEN_def push_bit_eq_mult power_add)
  ultimately show ?thesis by (simp add: power_add)
qed

lemma unat_of_nat_u32: "k < 2 ^ 32 \<Longrightarrow> unat (of_nat k :: u32) = k"
  by (simp add: unat_of_nat)

lemma path_loop_step:
  assumes "Suc j < unat (MAXPATHLEN P)"
    and "follow P cuckoo u j = Some x" and "x \<noteq> 0" and "follow P cuckoo u (Suc j) = Some y"
  shows "path_loop P cuckoo x (trail P cuckoo u us j) (of_nat j)
       = path_loop P cuckoo y (trail P cuckoo u us (Suc j)) (of_nat (Suc j))"
proof -
  have "unat (MAXPATHLEN P) < 2 ^ 32" using unsigned_less[of "MAXPATHLEN P", where ?'a = nat] by simp
  then have lt: "Suc j < 2 ^ 32" using assms(1) by simp
  have u1: "unat (of_nat j + 1 :: u32) = Suc j" using unat_of_nat_u32[OF lt] by (simp add: add.commute)
  have nb: "\<not> MAXPATHLEN P \<le> of_nat j + 1" using assms(1) u1 by (simp add: word_le_nat_alt)
  have lk: "cuckoo_hash_lookup P cuckoo x = Some (Return y)"
    using assms(2,4) by (auto split: option.splits result.splits)
  show ?thesis
    using assms(2,3) nb lk u1 by (subst path_loop.simps) (simp add: add.commute)
qed

lemma path_loop_last:
  assumes "wf_params P" and "length us = unat (MAXPATHLEN P)"
    and "follow P cuckoo u (unat (MAXPATHLEN P) - 1) = Some x" and "x \<noteq> 0"
  shows "path_loop P cuckoo x (trail P cuckoo u us (unat (MAXPATHLEN P) - 1)) (of_nat (unat (MAXPATHLEN P) - 1))
       = Some (Exit 0 [if x \<in> set (trail P cuckoo u us (unat (MAXPATHLEN P) - 1))
                       then IllegalCycle (MAXPATHLEN P - of_nat (last_pos (trail P cuckoo u us (unat (MAXPATHLEN P) - 1)) x))
                       else MaxPathLenExceeded])"
proof -
  let ?M = "unat (MAXPATHLEN P)"
  let ?tr = "trail P cuckoo u us (?M - 1)"
  have M: "0 < ?M" using unat_MAXPATHLEN[OF assms(1)] by simp
  have M32: "?M < 2 ^ 32" using unsigned_less[of "MAXPATHLEN P", where ?'a = nat] by simp
  have "Suc (?M - 1) = ?M" using M by simp
  then have "(of_nat (?M - 1) + 1 :: u32) = of_nat ?M" by (metis add.commute of_nat_Suc)
  then have nu1: "(of_nat (?M - 1) + 1 :: u32) = MAXPATHLEN P" by simp
  have tk: "take ?M ?tr = ?tr" using assms(2) by simp
  have ps: "path_search ?tr x (MAXPATHLEN P) =
     (if x \<in> set ?tr then of_nat (last_pos ?tr x) else - 1)"
    using path_search_eq[of "MAXPATHLEN P" ?tr x] assms(2) by (simp add: tk)
  have lp: "(of_nat (last_pos ?tr x) :: u32) \<noteq> - 1"
  proof
    assume eq: "(of_nat (last_pos ?tr x) :: u32) = - 1"
    have "length (dropWhile (\<lambda>y. y \<noteq> x) (rev ?tr)) \<le> length (rev ?tr)" by (rule length_dropWhile_le)
    then have "last_pos ?tr x < ?M" using M assms(2) by (simp add: last_pos_def)
    then have "unat (of_nat (last_pos ?tr x) :: u32) < ?M" using M32 by (simp add: unat_of_nat_u32)
    moreover have "unat (- 1 :: u32) = 4294967295"
      by (simp add: unsigned_minus_1_eq_mask mask_eq_exp_minus_1)
    ultimately show False using M32 eq by simp
  qed
  show ?thesis
    using assms(4) nu1 ps lp by (subst path_loop.simps) (simp add: Let_def)
qed


text \<open>
  Claim C8.  Let the trace from \<open>u\<close> go through \<^verbatim>\<open>MAXPATHLEN\<close> nodes, none of
  them the sentinel 0 (every lookup on the way returns).  Then \<^verbatim>\<open>path\<close> ends the
  process through \<^verbatim>\<open>exit(0)\<close>.  The trail \<open>tr\<close> holds the caller's \<^verbatim>\<open>us[0]\<close> and
  the first \<^verbatim>\<open>MAXPATHLEN - 1\<close> nodes of the trace; \<open>nxt\<close> is the node that found no
  room in it.  If \<open>nxt\<close> occurs in the trail, the message is the illegal cycle of
  length \<^verbatim>\<open>MAXPATHLEN\<close> minus its last position, otherwise it is "maximum path
  length exceeded".
\<close>

theorem path_bound_reached:
  assumes "wf_params P" and "length us = unat (MAXPATHLEN P)"
    and "\<forall>k < unat (MAXPATHLEN P). \<exists>x. follow P cuckoo u k = Some x \<and> x \<noteq> 0"
  shows "path P cuckoo u us =
     Some (Exit 0
       [let tr = trail P cuckoo u us (unat (MAXPATHLEN P) - 1);
            nxt = the (follow P cuckoo u (unat (MAXPATHLEN P) - 1))
        in if nxt \<in> set tr then IllegalCycle (MAXPATHLEN P - of_nat (last_pos tr nxt))
           else MaxPathLenExceeded])"
proof -
  let ?M = "unat (MAXPATHLEN P)"
  let ?R = "Some (Exit 0
       [let tr = trail P cuckoo u us (?M - 1); nxt = the (follow P cuckoo u (?M - 1))
        in if nxt \<in> set tr then IllegalCycle (MAXPATHLEN P - of_nat (last_pos tr nxt))
           else MaxPathLenExceeded])"
  have M: "0 < ?M" using unat_MAXPATHLEN[OF assms(1)] by simp
  have fl: "\<exists>x. follow P cuckoo u k = Some x \<and> x \<noteq> 0" if "k < ?M" for k
    using assms(3) that by blast
  have gen: "path_loop P cuckoo (the (follow P cuckoo u j)) (trail P cuckoo u us j) (of_nat j) = ?R"
    if "j \<le> ?M - 1" for j
    using that
  proof (induction rule: inc_induct)
    case base
    obtain x where x: "follow P cuckoo u (?M - 1) = Some x" "x \<noteq> 0" using fl[of "?M - 1"] M by auto
    show ?case using path_loop_last[OF assms(1,2) x] x by (simp add: Let_def)
  next
    case (step n)
    have sn: "Suc n < ?M" using step.hyps by simp
    then have "n < ?M" by simp
    from fl[OF this] obtain x where x: "follow P cuckoo u n = Some x" "x \<noteq> 0" by auto
    obtain y where y: "follow P cuckoo u (Suc n) = Some y" using fl[OF sn] by auto
    show ?case using path_loop_step[OF sn x y, of us] step.IH x y by simp
  qed
  from gen[of 0] show ?thesis by (simp add: path_def)
qed

lemma follow_fixed:
  "cuckoo_hash_lookup P cuckoo u = Some (Return u) \<Longrightarrow> follow P cuckoo u k = Some u"
  by (induction k) simp_all

lemma trail_fixed:
  assumes "\<And>k. follow P cuckoo u k = Some x"
  shows "j \<le> length rest \<Longrightarrow>
         trail P cuckoo u (a # rest) j = a # replicate j x @ drop j rest"
proof (induction j)
  case 0
  then show ?case by simp
next
  case (Suc j)
  then have IH: "trail P cuckoo u (a # rest) j = a # replicate j x @ drop j rest" by simp
  have d: "drop j rest = rest ! j # drop (Suc j) rest"
    using Suc.prems by (simp add: Cons_nth_drop_Suc)
  have "(replicate j x @ drop j rest)[j := x] = replicate j x @ x # drop (Suc j) rest"
    by (simp add: list_update_append d)
  also have "\<dots> = replicate (Suc j) x @ drop (Suc j) rest"
    by (simp add: replicate_append_same)
  finally show ?case using IH assms by simp
qed

text \<open>
  Witness for C8: a table of one slot that maps node 5 to itself; the trace
  from 5 never reaches 0 and the search finds 5 at the last trail position.
\<close>

theorem path_bound_reached_witness:
  "path \<lparr>SIZESHIFT = 6, PART_BITS = 0, PROOFSIZE = 2\<rparr> [325] 5 (replicate 32 0)
     = Some (Exit 0 [IllegalCycle 1])"
proof -
  let ?P = "\<lparr>SIZESHIFT = 6, PART_BITS = 0, PROOFSIZE = 2\<rparr>"
  have wf: "wf_params ?P" by (simp add: wf_params_def IDXSHIFT_def)
  have M: "unat (MAXPATHLEN ?P) = 32" by (simp add: MAXPATHLEN_def)
  have len: "length (replicate 32 (0::node_t)) = unat (MAXPATHLEN ?P)" by (simp add: M)
  have lk: "cuckoo_hash_lookup ?P [325] 5 = Some (Return 5)" by code_simp
  have fo: "follow ?P [325] 5 k = Some 5" for k by (rule follow_fixed[OF lk])
  have hyp: "\<forall>k < unat (MAXPATHLEN ?P). \<exists>x. follow ?P [325] 5 k = Some x \<and> x \<noteq> 0"
    by (simp add: fo)
  have "replicate 32 (0::node_t) = 0 # replicate 31 0" by (simp add: numeral_eq_Suc)
  then have tr: "trail ?P [325] 5 (replicate 32 0) 31 = 0 # replicate 31 5"
    using trail_fixed[of ?P "[325]" 5 5 31 "replicate 31 0" 0, OF fo] by simp
  have lp: "last_pos (0 # replicate 31 (5::node_t)) 5 = 31"
    by (simp add: last_pos_def)
  have ev: "(let tr = trail ?P [325] 5 (replicate 32 0) (unat (MAXPATHLEN ?P) - 1);
            nxt = the (follow ?P [325] 5 (unat (MAXPATHLEN ?P) - 1))
        in if nxt \<in> set tr then IllegalCycle (MAXPATHLEN ?P - of_nat (last_pos tr nxt))
           else MaxPathLenExceeded) = IllegalCycle 1"
    by (simp add: M fo tr lp Let_def) (simp add: MAXPATHLEN_def)
  from path_bound_reached[OF wf len hyp] show ?thesis by (simp only: ev)
qed


section \<open>Verification: solution assembly\<close>

text \<open>The alive nonces from \<open>nce\<close> up to \<^verbatim>\<open>HALFSIZE\<close>, in ascending order.\<close>

definition alive_from :: "params \<Rightarrow> u32 list \<Rightarrow> nonce_t \<Rightarrow> nonce_t list" where
  "alive_from P bits nce =
     filter (shrinkingset_test bits) (map of_nat [unat nce ..< unat (HALFSIZE P)])"

lemma alive_from_end: "\<not> nce < HALFSIZE P \<Longrightarrow> alive_from P bits nce = []"
  by (simp add: alive_from_def word_less_nat_alt)

lemma alive_from_step:
  assumes "nce < HALFSIZE P"
  shows "alive_from P bits nce =
           (if shrinkingset_test bits nce then [nce] else []) @ alive_from P bits (nce + 1)"
proof -
  have lt: "unat nce < unat (HALFSIZE P)" using assms by (simp add: word_less_nat_alt)
  have "[unat nce ..< unat (HALFSIZE P)] = unat nce # [unat (nce + 1) ..< unat (HALFSIZE P)]"
    using upt_conv_Cons[OF lt] unat_Suc_less[OF assms] by simp
  then show ?thesis by (simp add: alive_from_def)
qed

text \<open>
  The rescan in closed form.  When \<^verbatim>\<open>PROOFSIZE > 2\<close> every matched edge is
  removed and each collected edge that some alive nonce generates is counted
  once; otherwise nothing is removed and every alive nonce whose pair is a
  collected edge is counted.
\<close>

lemma solution_scan_erasing:
  assumes "2 < PROOFSIZE P" and "finite cycle"
  shows "solution_scan P sipedge bits nonce nce cycle n out =
           (cycle - sipedge ` set (alive_from P bits nce),
            n + of_nat (card (cycle \<inter> sipedge ` set (alive_from P bits nce))),
            out @ replicate (card (cycle \<inter> sipedge ` set (alive_from P bits nce))) (SolutionNonce nonce))"
  using assms
proof (induction P sipedge bits nonce nce cycle n out rule: solution_scan.induct)
  case (1 P sipedge bits nonce nce cycle n out)
  note big = \<open>2 < PROOFSIZE P\<close> and fin = \<open>finite cycle\<close>
  show ?case
  proof (cases "nce < HALFSIZE P")
    case False
    then show ?thesis by (subst solution_scan.simps) (simp add: alive_from_end)
  next
    case lt: True
    note st = alive_from_step[OF lt, of bits]
    show ?thesis
    proof (cases "shrinkingset_test bits nce")
      case False
      then show ?thesis using lt 1(3)[OF lt False big fin]
        by (subst solution_scan.simps) (simp add: st)
    next
      case al: True
      show ?thesis
      proof (cases "sipedge nce \<in> cycle")
        case False
        have "cycle \<inter> insert (sipedge nce) A = cycle \<inter> A" for A using False by auto
        then show ?thesis using lt al False 1(2)[OF lt al refl False big fin]
          by (subst solution_scan.simps) (simp add: st Let_def)
      next
        case mem: True
        let ?A = "sipedge ` set (alive_from P bits (nce + 1))"
        let ?c = "cycle - {sipedge nce}"
        have fin': "finite (if 2 < PROOFSIZE P then cycle - {sipedge nce} else cycle)" using fin by simp
        have eq1: "cycle - insert (sipedge nce) ?A = ?c - ?A" by auto
        have eq2: "insert (sipedge nce) (cycle \<inter> ?A) = insert (sipedge nce) (?c \<inter> ?A)"
          by auto
        have card: "card (insert (sipedge nce) (cycle \<inter> ?A)) = Suc (card (?c \<inter> ?A))"
          using fin by (simp add: eq2)
        show ?thesis using lt al mem 1(1)[OF lt al refl mem big fin'] big
          by (subst solution_scan.simps) (simp add: st Let_def eq1 card replicate_app_Cons_same)
      qed
    qed
  qed
qed

lemma solution_scan_keeping:
  assumes "\<not> 2 < PROOFSIZE P"
  shows "solution_scan P sipedge bits nonce nce cycle n out =
           (cycle,
            n + of_nat (length (filter (\<lambda>k. sipedge k \<in> cycle) (alive_from P bits nce))),
            out @ replicate (length (filter (\<lambda>k. sipedge k \<in> cycle) (alive_from P bits nce)))
                    (SolutionNonce nonce))"
  using assms
proof (induction P sipedge bits nonce nce cycle n out rule: solution_scan.induct)
  case (1 P sipedge bits nonce nce cycle n out)
  note small = \<open>\<not> 2 < PROOFSIZE P\<close>
  show ?case
  proof (cases "nce < HALFSIZE P")
    case False
    then show ?thesis by (subst solution_scan.simps) (simp add: alive_from_end)
  next
    case lt: True
    note st = alive_from_step[OF lt, of bits]
    show ?thesis
    proof (cases "shrinkingset_test bits nce")
      case False
      then show ?thesis using lt 1(3)[OF lt False small]
        by (subst solution_scan.simps) (simp add: st)
    next
      case al: True
      show ?thesis
      proof (cases "sipedge nce \<in> cycle")
        case False
        then show ?thesis using lt al 1(2)[OF lt al refl False small]
          by (subst solution_scan.simps) (simp add: st Let_def)
      next
        case mem: True
        show ?thesis using lt al mem 1(1)[OF lt al refl mem small] small
          by (subst solution_scan.simps) (simp add: st Let_def replicate_app_Cons_same)
      qed
    qed
  qed
qed


text \<open>
  Claim C4 against the code.  The erase is guarded by \<^verbatim>\<open>if (PROOFSIZE > 2)\<close>, so
  for \<^verbatim>\<open>PROOFSIZE = 2\<close> a matched pair stays in the pending set and matches
  again.  On a run where the alive nonces 0, 1 and 2 all generate the pair
  (2, 3), nonce 1 closes the two-edge cycle; the rescan on the collected set
  \<open>{(2, 3)}\<close> leaves the pair in the set, counts three nonces, and
  \<^verbatim>\<open>assert(n==PROOFSIZE)\<close> fails after the three nonces were printed.
\<close>

theorem two_cycle_assertion_fails:
  "find_cycles \<lparr>SIZESHIFT = 8, PART_BITS = 0, PROOFSIZE = 2\<rparr>
     (\<lambda>n. if n = 0 then (2, 3) else if n = 1 then (2, 3) else if n = 2 then (2, 3) else (1, 1))
     [0xFFFFFFF8, 0xFFFFFFFF, 0xFFFFFFFF, 0xFFFFFFFF]
   = Some (AssertFailed [FinalLoad 75, CycleFound 2 0, Solution,
                         SolutionNonce 1, SolutionNonce 1, SolutionNonce 1])
   \<and> solution_scan \<lparr>SIZESHIFT = 8, PART_BITS = 0, PROOFSIZE = 2\<rparr>
     (\<lambda>n. if n = 0 then (2, 3) else if n = 1 then (2, 3) else if n = 2 then (2, 3) else (1, 1))
     [0xFFFFFFF8, 0xFFFFFFFF, 0xFFFFFFFF, 0xFFFFFFFF] 1 0
     (cycle_vs [3, 2] 1 (cycle_us [2] 0 {(2, 3)})) 0 [Solution]
   = ({(2, 3)}, 3, [Solution, SolutionNonce 1, SolutionNonce 1, SolutionNonce 1])"
  by code_simp

text \<open>
  Claim C1 against the code: a run on 256 edges of which the nonces 0 to 3
  survive, with the edges (2,3), (4,3), (4,5), (2,5).  Nonce 3 closes the
  4-cycle.  The four nonces of the solution are 0, 1, 2, 3; the run prints the
  nonce 3 four times, since \<^verbatim>\<open>printf(" %lx", nonce)\<close> names the variable of the
  enclosing loop and not \<^verbatim>\<open>nce\<close>.
\<close>

theorem solution_prints_closing_nonce:
  "find_cycles \<lparr>SIZESHIFT = 9, PART_BITS = 0, PROOFSIZE = 4\<rparr>
     (\<lambda>n. if n = 0 then (2, 3) else if n = 1 then (4, 3) else if n = 2 then (4, 5)
           else if n = 3 then (2, 5) else (1, 1))
     [0xFFFFFFF0, 0xFFFFFFFF, 0xFFFFFFFF, 0xFFFFFFFF, 0xFFFFFFFF, 0xFFFFFFFF, 0xFFFFFFFF, 0xFFFFFFFF]
   = Some (Exit 0 [FinalLoad 50, CycleFound 4 1, Solution,
                   SolutionNonce 3, SolutionNonce 3, SolutionNonce 3, SolutionNonce 3, Newline])"
  by code_simp

section \<open>Verification: PathTable\<close>

text \<open>
  The probe sequence of \<^verbatim>\<open>set\<close> and \<^verbatim>\<open>operator[]\<close>: the slot index after
  \<open>k\<close> steps of \<^verbatim>\<open>ui = (ui+1) & CUCKOO_MASK\<close>, from any index and from the
  natural slot \<^verbatim>\<open>u >> IDXSHIFT\<close> of a key.
\<close>

fun probe_from :: "params \<Rightarrow> node_t \<Rightarrow> nat \<Rightarrow> node_t" where
  "probe_from P ui 0 = ui"
| "probe_from P ui (Suc k) = probe_from P ((ui + 1) AND CUCKOO_MASK P) k"

definition probe :: "params \<Rightarrow> node_t \<Rightarrow> nat \<Rightarrow> node_t" where
  "probe P u k = probe_from P (drop_bit (IDXSHIFT P) u) k"

text \<open>
  The slot at index \<open>ui\<close> ends the probe loop for key \<open>u\<close>: it is empty or it
  stores the key \<^verbatim>\<open>u & KEYMASK\<close>; \<open>k\<close> is the first such position of the
  probe sequence.
\<close>

definition slot_hit :: "params \<Rightarrow> u64 list \<Rightarrow> node_t \<Rightarrow> node_t \<Rightarrow> bool" where
  "slot_hit P cuckoo u ui \<longleftrightarrow>
     cuckoo ! unat ui = 0 \<or> drop_bit (SIZESHIFT P) (cuckoo ! unat ui) = u AND KEYMASK P"

definition first_hit :: "params \<Rightarrow> u64 list \<Rightarrow> node_t \<Rightarrow> nat \<Rightarrow> bool" where
  "first_hit P cuckoo u k \<longleftrightarrow>
     slot_hit P cuckoo u (probe P u k) \<and> (\<forall>j<k. \<not> slot_hit P cuckoo u (probe P u j))"

lemma set_loop_first_hit:
  "slot_hit P cuckoo u (probe_from P ui k) \<Longrightarrow>
   \<forall>j<k. \<not> slot_hit P cuckoo u (probe_from P ui j) \<Longrightarrow>
   cuckoo_hash_set_loop P cuckoo u niew ui = Some (cuckoo[unat (probe_from P ui k) := niew])"
proof (induction k arbitrary: ui)
  case 0
  then show ?case by (subst cuckoo_hash_set_loop.simps) (simp add: slot_hit_def)
next
  case (Suc k)
  have nh: "\<not> slot_hit P cuckoo u ui" using Suc.prems(2) by (metis probe_from.simps(1) zero_less_Suc)
  have "\<forall>j<k. \<not> slot_hit P cuckoo u (probe_from P ((ui + 1) AND CUCKOO_MASK P) j)"
    using Suc.prems(2) by (metis Suc_less_eq probe_from.simps(2))
  from Suc.IH[OF _ this] Suc.prems(1) nh show ?case
    by (subst cuckoo_hash_set_loop.simps) (simp add: slot_hit_def Let_def)
qed

lemma lookup_loop_first_hit:
  "slot_hit P cuckoo u (probe_from P ui k) \<Longrightarrow>
   \<forall>j<k. \<not> slot_hit P cuckoo u (probe_from P ui j) \<Longrightarrow>
   cuckoo_hash_lookup_loop P cuckoo u ui =
     (let s = probe_from P ui k; cu = cuckoo ! unat s in
      if cu = 0 then Some (Return 0)
      else if (s - drop_bit (IDXSHIFT P) u) AND CUCKOO_MASK P < MAXDRIFT P
           then Some (Return (cu AND (SIZE P - 1)))
           else Some (AssertFailed []))"
proof (induction k arbitrary: ui)
  case 0
  then show ?case by (subst cuckoo_hash_lookup_loop.simps) (auto simp add: slot_hit_def Let_def)
next
  case (Suc k)
  have nh: "\<not> slot_hit P cuckoo u ui" using Suc.prems(2) by (metis probe_from.simps(1) zero_less_Suc)
  have "\<forall>j<k. \<not> slot_hit P cuckoo u (probe_from P ((ui + 1) AND CUCKOO_MASK P) j)"
    using Suc.prems(2) by (metis Suc_less_eq probe_from.simps(2))
  from Suc.IH[OF _ this] Suc.prems(1) nh show ?case
    by (subst cuckoo_hash_lookup_loop.simps) (simp add: slot_hit_def Let_def)
qed

lemma set_loop_Some_hit:
  assumes "cuckoo_hash_set_loop P cuckoo u niew ui = Some y"
  shows "\<exists>k. slot_hit P cuckoo u (probe_from P ui k)"
proof -
  let ?Q = "\<lambda>((((P, cuckoo), u), niew :: u64), ui) (y :: u64 list).
              \<exists>k. slot_hit P cuckoo u (probe_from P ui k)"
  have "?Q ((((P, cuckoo), u), niew), ui) y"
  proof (rule cuckoo_hash_set_loop.raw_induct[where Pa = ?Q, OF _ assms], goal_cases)
    case (1 f P cuckoo u niew ui y)
    show ?case
    proof (cases "slot_hit P cuckoo u ui")
      case True
      then have "slot_hit P cuckoo u (probe_from P ui 0)" by simp
      then show ?thesis by (simp only: prod.case) blast
    next
      case False
      then have "f P cuckoo u niew ((ui + 1) AND CUCKOO_MASK P) = Some y"
        using 1(2) by (simp add: slot_hit_def Let_def)
      from 1(1)[OF this] obtain k where
        "slot_hit P cuckoo u (probe_from P ((ui + 1) AND CUCKOO_MASK P) k)" by auto
      then have "slot_hit P cuckoo u (probe_from P ui (Suc k))" by simp
      then show ?thesis by (simp only: prod.case) blast
    qed
  qed
  then show ?thesis by simp
qed

lemma lookup_loop_Some_hit:
  assumes "cuckoo_hash_lookup_loop P cuckoo u ui = Some y"
  shows "\<exists>k. slot_hit P cuckoo u (probe_from P ui k)"
proof -
  let ?Q = "\<lambda>(((P, cuckoo), u), ui) (y :: node_t result).
              \<exists>k. slot_hit P cuckoo u (probe_from P ui k)"
  have "?Q (((P, cuckoo), u), ui) y"
  proof (rule cuckoo_hash_lookup_loop.raw_induct[where Pa = ?Q, OF _ assms], goal_cases)
    case (1 f P cuckoo u ui y)
    show ?case
    proof (cases "slot_hit P cuckoo u ui")
      case True
      then have "slot_hit P cuckoo u (probe_from P ui 0)" by simp
      then show ?thesis by (simp only: prod.case) blast
    next
      case False
      then have "f P cuckoo u ((ui + 1) AND CUCKOO_MASK P) = Some y"
        using 1(2) by (simp add: slot_hit_def Let_def)
      from 1(1)[OF this] obtain k where
        "slot_hit P cuckoo u (probe_from P ((ui + 1) AND CUCKOO_MASK P) k)" by auto
      then have "slot_hit P cuckoo u (probe_from P ui (Suc k))" by simp
      then show ?thesis by (simp only: prod.case) blast
    qed
  qed
  then show ?thesis by simp
qed

lemma hit_first_hit:
  "slot_hit P cuckoo u (probe P u k) \<Longrightarrow> \<exists>k'\<le>k. first_hit P cuckoo u k'"
proof (induction k rule: less_induct)
  case (less k)
  show ?case
  proof (cases "\<exists>j<k. slot_hit P cuckoo u (probe P u j)")
    case True
    then obtain j where "j < k" "slot_hit P cuckoo u (probe P u j)" by blast
    from less.IH[OF this] obtain k' where "k' \<le> j" "first_hit P cuckoo u k'" by blast
    then show ?thesis using \<open>j < k\<close> by (meson le_trans less_imp_le)
  next
    case False
    then have "first_hit P cuckoo u k" using less.prems by (simp add: first_hit_def)
    then show ?thesis by blast
  qed
qed


text \<open>The table has \<open>2 ^ slots_bits P\<close> slots.\<close>

definition slots_bits :: "params \<Rightarrow> nat" where
  "slots_bits P = SIZESHIFT P - IDXSHIFT P"

lemma slots_bits_less: "wf_params P \<Longrightarrow> slots_bits P < 64"
  using wf_params_bounds[of P] by (simp add: slots_bits_def) arith

lemma unat_CUCKOO_SIZE: "wf_params P \<Longrightarrow> unat (CUCKOO_SIZE P) = 2 ^ slots_bits P"
proof -
  assume wf: "wf_params P"
  have le: "IDXSHIFT P \<le> SIZESHIFT P" using wf_params_bounds[OF wf] by simp
  have "unat (CUCKOO_SIZE P) = unat (SIZE P) div 2 ^ IDXSHIFT P"
    unfolding CUCKOO_SIZE_def unat_drop_bit_eq by (simp add: drop_bit_eq_div)
  also have "\<dots> = 2 ^ SIZESHIFT P div 2 ^ IDXSHIFT P" by (simp only: unat_SIZE[OF wf])
  also have "\<dots> = 2 ^ (SIZESHIFT P - IDXSHIFT P)" using le by (simp add: power_diff)
  finally show ?thesis by (simp add: slots_bits_def)
qed

lemma CUCKOO_SIZE_eq: "wf_params P \<Longrightarrow> CUCKOO_SIZE P = 2 ^ slots_bits P"
proof -
  assume wf: "wf_params P"
  have "unat (CUCKOO_SIZE P) = unat (2 ^ slots_bits P :: u64)"
    using slots_bits_less[OF wf] by (simp add: unat_CUCKOO_SIZE[OF wf] unat_pow2)
  then show ?thesis by (simp only: word_unat_eq_iff)
qed

lemma CUCKOO_MASK_eq: "wf_params P \<Longrightarrow> x AND CUCKOO_MASK P = take_bit (slots_bits P) x"
  by (simp add: CUCKOO_MASK_def CUCKOO_SIZE_eq take_bit_eq_mask mask_eq_exp_minus_1)

lemma take_bit_add_left: "take_bit n (take_bit n a + b) = take_bit n (a + b)" for a b :: "'a::len word"
  by (simp only: take_bit_eq_mask mask_eqs(1))

lemma probe_from_Suc:
  assumes "wf_params P"
  shows "probe_from P ui (Suc k) = take_bit (slots_bits P) (ui + of_nat (Suc k))"
proof (induction k arbitrary: ui)
  case 0
  show ?case by (simp add: CUCKOO_MASK_eq[OF assms])
next
  case (Suc k)
  have "probe_from P ui (Suc (Suc k)) = probe_from P ((ui + 1) AND CUCKOO_MASK P) (Suc k)"
    by (simp only: probe_from.simps)
  also have "\<dots> = take_bit (slots_bits P) (take_bit (slots_bits P) (ui + 1) + of_nat (Suc k))"
    by (simp only: Suc CUCKOO_MASK_eq[OF assms])
  also have "\<dots> = take_bit (slots_bits P) ((ui + 1) + of_nat (Suc k))"
    by (rule take_bit_add_left)
  also have "(ui + 1) + of_nat (Suc k) = ui + of_nat (Suc (Suc k))" by simp
  finally show ?case .
qed

lemma unat_take_bit_less: "wf_params P \<Longrightarrow> unat (take_bit (slots_bits P) (x :: u64)) < unat (CUCKOO_SIZE P)"
  unfolding unsigned_take_bit_eq by (simp add: unat_CUCKOO_SIZE take_bit_eq_mod)

lemma start_in_range:
  assumes "wf_params P" "u < SIZE P"
  shows "unat (drop_bit (IDXSHIFT P) u) < unat (CUCKOO_SIZE P)"
proof -
  have "unat u < 2 ^ SIZESHIFT P" using assms unat_SIZE[OF assms(1)] by (simp add: word_less_nat_alt)
  moreover have "(2::nat) ^ SIZESHIFT P = 2 ^ slots_bits P * 2 ^ IDXSHIFT P"
    using wf_params_bounds[OF assms(1)] by (simp add: slots_bits_def flip: power_add)
  ultimately have "unat u div 2 ^ IDXSHIFT P < 2 ^ slots_bits P"
    by (simp add: less_mult_imp_div_less)
  then show ?thesis unfolding unat_drop_bit_eq by (simp add: unat_CUCKOO_SIZE[OF assms(1)] drop_bit_eq_div)
qed

lemma probe_in_range:
  assumes "wf_params P" "u < SIZE P"
  shows "unat (probe P u k) < unat (CUCKOO_SIZE P)"
proof (cases k)
  case 0
  then show ?thesis using start_in_range[OF assms] by (simp add: probe_def)
next
  case (Suc j)
  show ?thesis unfolding probe_def Suc probe_from_Suc[OF assms(1)]
    by (rule unat_take_bit_less[OF assms(1)])
qed

lemma probe_onto:
  assumes "wf_params P" "u < SIZE P" "i < unat (CUCKOO_SIZE P)"
  shows "\<exists>k. unat (probe P u k) = i"
proof -
  let ?m = "slots_bits P"
  let ?s = "drop_bit (IDXSHIFT P) u"
  have s: "unat ?s < 2 ^ ?m" using start_in_range[OF assms(1,2)] unat_CUCKOO_SIZE[OF assms(1)] by simp
  have i: "i < 2 ^ ?m" using assms(3) unat_CUCKOO_SIZE[OF assms(1)] by simp
  define k where "k = i + 2 ^ ?m - unat ?s"
  have k: "unat ?s + k = i + 2 ^ ?m" using s by (simp add: k_def)
  obtain j where j: "k = Suc j" using s by (cases k) (auto simp add: k_def)
  have "probe P u k = take_bit ?m (?s + of_nat k)"
    unfolding probe_def j by (rule probe_from_Suc[OF assms(1)])
  also have "?s + of_nat k = of_nat (unat ?s + k)" by simp
  also have "\<dots> = of_nat (i + 2 ^ ?m)" by (simp only: k)
  finally have "probe P u k = take_bit ?m (of_nat (i + 2 ^ ?m))" .
  then have "unat (probe P u k) = take_bit ?m (unat (of_nat (i + 2 ^ ?m) :: u64))"
    by (simp only: unsigned_take_bit_eq)
  also have "\<dots> = unat (of_nat (i + 2 ^ ?m) :: u64) mod 2 ^ ?m"
    by (rule take_bit_eq_mod)
  also have "unat (of_nat (i + 2 ^ ?m) :: u64) = (i + 2 ^ ?m) mod 2 ^ 64"
    by (simp only: unat_of_nat) simp
  also have "(i + 2 ^ ?m) mod 2 ^ 64 mod 2 ^ ?m = (i + 2 ^ ?m) mod 2 ^ ?m"
    using slots_bits_less[OF assms(1)] by (intro mod_mod_cancel le_imp_power_dvd) simp
  also have "\<dots> = i" using i by simp
  finally show ?thesis by blast
qed


lemma set_first_hit:
  "first_hit P cuckoo u k \<Longrightarrow>
   cuckoo_hash_set P cuckoo u v = Some (cuckoo[unat (probe P u k) := push_bit (SIZESHIFT P) u OR v])"
  unfolding first_hit_def probe_def cuckoo_hash_set_def Let_def
  by (rule set_loop_first_hit) simp_all

lemma lookup_first_hit:
  "first_hit P cuckoo u k \<Longrightarrow>
   cuckoo_hash_lookup P cuckoo u =
     Some (if cuckoo ! unat (probe P u k) = 0 then Return 0
           else if (probe P u k - probe P u 0) AND CUCKOO_MASK P < MAXDRIFT P
                then Return (cuckoo ! unat (probe P u k) AND (SIZE P - 1))
                else AssertFailed [])"
  unfolding first_hit_def cuckoo_hash_lookup_def
  using lookup_loop_first_hit[of P cuckoo u "drop_bit (IDXSHIFT P) u" k]
  by (simp add: probe_def Let_def)

lemma set_Some_first_hit:
  "cuckoo_hash_set P cuckoo u v = Some cuckoo' \<Longrightarrow> \<exists>k. first_hit P cuckoo u k"
  using set_loop_Some_hit[of P cuckoo u _ "drop_bit (IDXSHIFT P) u" cuckoo'] hit_first_hit[of P cuckoo u]
  by (fastforce simp add: cuckoo_hash_set_def probe_def Let_def)

lemma lookup_Some_first_hit:
  "cuckoo_hash_lookup P cuckoo u = Some r \<Longrightarrow> \<exists>k. first_hit P cuckoo u k"
  using lookup_loop_Some_hit[of P cuckoo u "drop_bit (IDXSHIFT P) u" r] hit_first_hit[of P cuckoo u]
  by (fastforce simp add: cuckoo_hash_lookup_def probe_def)

lemma no_hit_None:
  assumes "\<forall>k. \<not> slot_hit P cuckoo u (probe P u k)"
  shows "cuckoo_hash_set P cuckoo u v = None" and "cuckoo_hash_lookup P cuckoo u = None"
proof -
  show "cuckoo_hash_set P cuckoo u v = None"
    using set_Some_first_hit[of P cuckoo u v] assms by (cases "cuckoo_hash_set P cuckoo u v") (auto simp add: first_hit_def)
  show "cuckoo_hash_lookup P cuckoo u = None"
    using lookup_Some_first_hit[of P cuckoo u] assms by (cases "cuckoo_hash_lookup P cuckoo u") (auto simp add: first_hit_def)
qed

lemma full_table_no_hit:
  assumes "wf_params P" "length cuckoo = unat (CUCKOO_SIZE P)" "u < SIZE P"
    and "\<forall>i<length cuckoo. cuckoo ! i \<noteq> 0 \<and> drop_bit (SIZESHIFT P) (cuckoo ! i) \<noteq> u AND KEYMASK P"
  shows "\<not> slot_hit P cuckoo u (probe P u k)"
  using probe_in_range[OF assms(1,3), of k] assms(2,4) by (simp add: slot_hit_def)

lemma some_slot_hit:
  assumes "wf_params P" "length cuckoo = unat (CUCKOO_SIZE P)" "u < SIZE P"
    and "i < length cuckoo" "cuckoo ! i = 0 \<or> drop_bit (SIZESHIFT P) (cuckoo ! i) = u AND KEYMASK P"
  shows "\<exists>k. slot_hit P cuckoo u (probe P u k)"
proof -
  from probe_onto[OF assms(1,3), of i] assms(2,4) obtain k where "unat (probe P u k) = i" by auto
  then have "slot_hit P cuckoo u (probe P u k)" using assms(5) by (simp add: slot_hit_def)
  then show ?thesis by blast
qed

text \<open>
  Claim C10.  On a table of \<^verbatim>\<open>CUCKOO_SIZE\<close> slots and for a node \<open>u\<close> below
  \<^verbatim>\<open>SIZE\<close>, \<^verbatim>\<open>set(u, v)\<close> returns exactly when its probe sequence reaches a
  slot that is empty or stores the key \<^verbatim>\<open>u & KEYMASK\<close>.  The sequence visits
  every slot, so such a slot anywhere in the table is enough; on a table without
  one the loop never returns.
\<close>

theorem cuckoo_hash_set_terminates_iff:
  assumes "wf_params P" and "length cuckoo = unat (CUCKOO_SIZE P)" and "u < SIZE P"
  shows "((\<exists>cuckoo'. cuckoo_hash_set P cuckoo u v = Some cuckoo')
            \<longleftrightarrow> (\<exists>k. slot_hit P cuckoo u (probe P u k)))
       \<and> ((\<exists>i<length cuckoo. cuckoo ! i = 0 \<or> drop_bit (SIZESHIFT P) (cuckoo ! i) = u AND KEYMASK P)
            \<longrightarrow> (\<exists>cuckoo'. cuckoo_hash_set P cuckoo u v = Some cuckoo'))
       \<and> ((\<forall>i<length cuckoo. cuckoo ! i \<noteq> 0 \<and> drop_bit (SIZESHIFT P) (cuckoo ! i) \<noteq> u AND KEYMASK P)
            \<longrightarrow> cuckoo_hash_set P cuckoo u v = None)"
proof -
  have iff: "(\<exists>cuckoo'. cuckoo_hash_set P cuckoo u v = Some cuckoo') \<longleftrightarrow> (\<exists>k. slot_hit P cuckoo u (probe P u k))"
  proof
    assume "\<exists>cuckoo'. cuckoo_hash_set P cuckoo u v = Some cuckoo'"
    then show "\<exists>k. slot_hit P cuckoo u (probe P u k)"
      using set_Some_first_hit[of P cuckoo u v] by (auto simp add: first_hit_def)
  next
    assume "\<exists>k. slot_hit P cuckoo u (probe P u k)"
    then obtain k where "first_hit P cuckoo u k" using hit_first_hit[of P cuckoo u] by blast
    from set_first_hit[OF this] show "\<exists>cuckoo'. cuckoo_hash_set P cuckoo u v = Some cuckoo'" by blast
  qed
  moreover have "\<exists>k. slot_hit P cuckoo u (probe P u k)"
    if "\<exists>i<length cuckoo. cuckoo ! i = 0 \<or> drop_bit (SIZESHIFT P) (cuckoo ! i) = u AND KEYMASK P"
    using that some_slot_hit[OF assms] by blast
  moreover have "cuckoo_hash_set P cuckoo u v = None"
    if "\<forall>i<length cuckoo. cuckoo ! i \<noteq> 0 \<and> drop_bit (SIZESHIFT P) (cuckoo ! i) \<noteq> u AND KEYMASK P"
    using no_hit_None(1)[of P cuckoo u v] full_table_no_hit[OF assms that] by blast
  ultimately show ?thesis by blast
qed


text \<open>
  Witness for C10: four slots holding the keys 1 to 4; \<^verbatim>\<open>set(5, 7)\<close> does not
  return on the full table and returns once slot 1 is empty.
\<close>

theorem cuckoo_hash_set_terminates_witness:
  "cuckoo_hash_set \<lparr>SIZESHIFT = 8, PART_BITS = 0, PROOFSIZE = 2\<rparr> [266, 522, 778, 1034] 5 7 = None
   \<and> (\<exists>cuckoo'. cuckoo_hash_set \<lparr>SIZESHIFT = 8, PART_BITS = 0, PROOFSIZE = 2\<rparr> [266, 0, 778, 1034] 5 7
          = Some cuckoo')"
proof -
  let ?P = "\<lparr>SIZESHIFT = 8, PART_BITS = 0, PROOFSIZE = 2\<rparr>"
  have wf: "wf_params ?P" by (simp add: wf_params_def IDXSHIFT_def)
  have len: "length [266, 522, 778, 1034 :: u64] = unat (CUCKOO_SIZE ?P)"
       "length [266, 0, 778, 1034 :: u64] = unat (CUCKOO_SIZE ?P)"
    by (simp_all add: CUCKOO_SIZE_def SIZE_def IDXSHIFT_def)
  have u: "5 < SIZE ?P" by (simp add: SIZE_def)
  have full: "\<forall>i<length [266, 522, 778, 1034 :: u64]. [266, 522, 778, 1034 :: u64] ! i \<noteq> 0 \<and>
      drop_bit (SIZESHIFT ?P) ([266, 522, 778, 1034 :: u64] ! i) \<noteq> 5 AND KEYMASK ?P"
    by code_simp
  have hole: "\<exists>i<length [266, 0, 778, 1034 :: u64]. [266, 0, 778, 1034 :: u64] ! i = 0 \<or>
      drop_bit (SIZESHIFT ?P) ([266, 0, 778, 1034 :: u64] ! i) = 5 AND KEYMASK ?P"
    by (rule exI[of _ 1]) simp
  from cuckoo_hash_set_terminates_iff[OF wf len(1) u, of 7] full
       cuckoo_hash_set_terminates_iff[OF wf len(2) u, of 7] hole
  show ?thesis by blast
qed


lemma SIZE_eq: "SIZE P = 2 ^ SIZESHIFT P"
  by (simp add: SIZE_def)

lemma below_SIZE_take_bit: "v < SIZE P \<Longrightarrow> take_bit (SIZESHIFT P) v = v"
  by (simp add: SIZE_eq less_mask_eq take_bit_eq_mask)

lemma below_SIZE_high_bits: "v < SIZE P \<Longrightarrow> \<not> bit v (SIZESHIFT P + n)"
  using below_SIZE_take_bit[of v P] by (metis bit_take_bit_iff not_add_less1)

lemma KEYMASK_eq: "KEYMASK P = mask (KEYBITS P)"
  by (simp add: KEYMASK_def mask_eq_exp_minus_1)

lemma key_of_niew:
  assumes "wf_params P" "v < SIZE P"
  shows "drop_bit (SIZESHIFT P) (push_bit (SIZESHIFT P) u OR v) = u AND KEYMASK P"
proof (rule bit_eqI)
  fix n
  have S: "SIZESHIFT P \<le> 58" using wf_params_bounds[OF assms(1)] by simp
  show "bit (drop_bit (SIZESHIFT P) (push_bit (SIZESHIFT P) u OR v)) n = bit (u AND KEYMASK P) n"
    using below_SIZE_high_bits[OF assms(2), of n] S
    by (auto simp add: bit_drop_bit_eq bit_or_iff bit_push_bit_iff bit_and_iff KEYMASK_eq bit_mask_iff KEYBITS_def
             add.commute dest: bit_imp_le_length)
qed

lemma val_of_niew:
  assumes "wf_params P" "v < SIZE P"
  shows "(push_bit (SIZESHIFT P) u OR v) AND (SIZE P - 1) = v"
proof -
  have "(push_bit (SIZESHIFT P) u OR v) AND (SIZE P - 1) = take_bit (SIZESHIFT P) (push_bit (SIZESHIFT P) u OR v)"
    by (simp add: SIZE_eq take_bit_eq_mask mask_eq_exp_minus_1)
  also have "\<dots> = take_bit (SIZESHIFT P) v"
    by (rule bit_eqI) (auto simp add: bit_take_bit_iff bit_or_iff bit_push_bit_iff)
  finally show ?thesis by (simp add: below_SIZE_take_bit[OF assms(2)])
qed


lemma drift_eq:
  assumes "wf_params P"
  shows "unat ((probe P u k - probe P u 0) AND CUCKOO_MASK P) = k mod unat (CUCKOO_SIZE P)"
proof -
  let ?m = "slots_bits P"
  let ?s = "drop_bit (IDXSHIFT P) u"
  have "(probe P u k - probe P u 0) AND CUCKOO_MASK P = take_bit ?m (of_nat k)"
  proof (cases k)
    case 0
    then show ?thesis by (simp add: probe_def CUCKOO_MASK_eq[OF assms])
  next
    case (Suc j)
    have "(probe P u k - probe P u 0) AND CUCKOO_MASK P
            = (((?s + of_nat k) AND mask ?m) - ?s) AND mask ?m"
      unfolding probe_def Suc probe_from_Suc[OF assms] CUCKOO_MASK_eq[OF assms]
      by (simp only: take_bit_eq_mask probe_from.simps)
    also have "\<dots> = ((?s + of_nat k) - ?s) AND mask ?m" by (rule mask_eqs(3))
    finally show ?thesis by (simp add: take_bit_eq_mask)
  qed
  then have "unat ((probe P u k - probe P u 0) AND CUCKOO_MASK P) = take_bit ?m (unat (of_nat k :: u64))"
    by (simp only: unsigned_take_bit_eq)
  also have "\<dots> = unat (of_nat k :: u64) mod 2 ^ ?m" by (rule take_bit_eq_mod)
  also have "unat (of_nat k :: u64) = k mod 2 ^ 64" by (simp only: unat_of_nat) simp
  also have "k mod 2 ^ 64 mod 2 ^ ?m = k mod 2 ^ ?m"
    using slots_bits_less[OF assms] by (intro mod_mod_cancel le_imp_power_dvd) simp
  finally show ?thesis by (simp add: unat_CUCKOO_SIZE[OF assms])
qed

lemma drift_ok:
  assumes "wf_params P" "k < unat (MAXDRIFT P)"
  shows "(probe P u k - probe P u 0) AND CUCKOO_MASK P < MAXDRIFT P"
proof -
  have "k mod unat (CUCKOO_SIZE P) \<le> k" by simp
  then have "k mod unat (CUCKOO_SIZE P) < unat (MAXDRIFT P)" using assms(2) by (rule le_less_trans)
  then show ?thesis using drift_eq[OF assms(1), of u k] by (simp add: word_less_nat_alt)
qed

lemma unat_MAXDRIFT: "wf_params P \<Longrightarrow> unat (MAXDRIFT P) = 2 ^ (64 - SIZESHIFT P - IDXSHIFT P)"
proof -
  assume "wf_params P"
  then have "64 - SIZESHIFT P - IDXSHIFT P < 64" using wf_params_bounds[of P] by simp
  then show ?thesis by (simp add: MAXDRIFT_def KEYBITS_def unat_pow2)
qed

lemma drift_small_graph:
  assumes "wf_params P" "SIZESHIFT P \<le> 32"
  shows "(probe P u k - probe P u 0) AND CUCKOO_MASK P < MAXDRIFT P"
proof -
  have "k mod unat (CUCKOO_SIZE P) < 2 ^ slots_bits P"
    by (simp add: unat_CUCKOO_SIZE[OF assms(1)])
  also have "(2::nat) ^ slots_bits P \<le> 2 ^ (64 - SIZESHIFT P - IDXSHIFT P)"
    using assms(2) by (intro power_increasing) (simp_all add: slots_bits_def)
  finally show ?thesis using drift_eq[OF assms(1), of u k]
    by (simp add: word_less_nat_alt unat_MAXDRIFT[OF assms(1)])
qed

text \<open>A sequence of calls of \<^verbatim>\<open>set\<close>, in list order.\<close>

fun cuckoo_hash_sets :: "params \<Rightarrow> u64 list \<Rightarrow> (node_t \<times> node_t) list \<Rightarrow> u64 list option" where
  "cuckoo_hash_sets P cuckoo [] = Some cuckoo"
| "cuckoo_hash_sets P cuckoo ((u, v) # kvs) =
     (case cuckoo_hash_set P cuckoo u v of
        None \<Rightarrow> None
      | Some cuckoo' \<Rightarrow> cuckoo_hash_sets P cuckoo' kvs)"

text \<open>Every occupied slot stores a key of the set \<open>K\<close>.\<close>

definition keys_inv :: "params \<Rightarrow> u64 list \<Rightarrow> u64 set \<Rightarrow> bool" where
  "keys_inv P cuckoo K \<longleftrightarrow>
     (\<forall>i<length cuckoo. cuckoo ! i \<noteq> 0 \<longrightarrow> drop_bit (SIZESHIFT P) (cuckoo ! i) \<in> K)"

lemma keys_inv_set:
  assumes "wf_params P" "v < SIZE P" "keys_inv P cuckoo K" "u AND KEYMASK P \<in> K"
    and "cuckoo_hash_set P cuckoo u v = Some cuckoo'"
  shows "keys_inv P cuckoo' K \<and> length cuckoo' = length cuckoo"
proof -
  from set_Some_first_hit[OF assms(5)] obtain k where k: "first_hit P cuckoo u k" by blast
  from set_first_hit[OF k, of v] assms(5)
  have c': "cuckoo' = cuckoo[unat (probe P u k) := push_bit (SIZESHIFT P) u OR v]" by simp
  have "drop_bit (SIZESHIFT P) (cuckoo' ! i) \<in> K" if "i < length cuckoo" "cuckoo' ! i \<noteq> 0" for i
  proof (cases "i = unat (probe P u k)")
    case True
    then have "cuckoo' ! i = push_bit (SIZESHIFT P) u OR v" using that(1) by (simp add: c')
    then show ?thesis using key_of_niew[OF assms(1,2), of u] assms(4) by (simp only:)
  next
    case False
    then have "cuckoo' ! i = cuckoo ! i" by (simp add: c')
    then show ?thesis using assms(3) that by (simp add: keys_inv_def)
  qed
  then show ?thesis by (simp add: keys_inv_def c')
qed

lemma keys_inv_sets:
  assumes "wf_params P"
  shows "\<forall>(a, b)\<in>set kvs. b < SIZE P \<Longrightarrow> keys_inv P cuckoo K \<Longrightarrow>
         (\<lambda>(a, b). a AND KEYMASK P) ` set kvs \<subseteq> K \<Longrightarrow>
         cuckoo_hash_sets P cuckoo kvs = Some cuckoo' \<Longrightarrow>
         keys_inv P cuckoo' K \<and> length cuckoo' = length cuckoo"
proof (induction kvs arbitrary: cuckoo)
  case Nil
  then show ?case by simp
next
  case (Cons kv kvs)
  obtain a b where kv: "kv = (a, b)" by (cases kv)
  from Cons.prems(4) obtain c1 where c1: "cuckoo_hash_set P cuckoo a b = Some c1"
    and rest: "cuckoo_hash_sets P c1 kvs = Some cuckoo'"
    by (auto simp add: kv split: option.splits)
  have "keys_inv P c1 K \<and> length c1 = length cuckoo"
    using keys_inv_set[OF assms _ Cons.prems(2) _ c1] Cons.prems(1,3) by (auto simp add: kv)
  then show ?case using Cons.IH[of c1, OF _ _ _ rest] Cons.prems(1,3) by auto
qed

lemma keys_inv_new: "keys_inv P (cuckoo_hash_new P) K"
  by (simp add: keys_inv_def cuckoo_hash_new_def)

lemma lookup_never_set:
  assumes "wf_params P"
    and "cuckoo_hash_sets P (cuckoo_hash_new P) kvs = Some cuckoo"
    and "\<forall>(a, b)\<in>set kvs. b < SIZE P"
    and "w < SIZE P" and "w AND KEYMASK P \<notin> (\<lambda>(a, b). a AND KEYMASK P) ` set kvs"
    and "\<exists>i<length cuckoo. cuckoo ! i = 0"
  shows "cuckoo_hash_lookup P cuckoo w = Some (Return 0)"
proof -
  let ?K = "(\<lambda>(a, b). a AND KEYMASK P) ` set kvs"
  have inv: "keys_inv P cuckoo ?K" and len: "length cuckoo = unat (CUCKOO_SIZE P)"
    using keys_inv_sets[OF assms(1,3) keys_inv_new _ assms(2), of ?K]
    by (simp_all add: cuckoo_hash_new_def)
  from assms(6) obtain i where i: "i < length cuckoo" "cuckoo ! i = 0" by blast
  from some_slot_hit[OF assms(1) len assms(4) i(1)] i(2) hit_first_hit[of P cuckoo w]
  obtain k where k: "first_hit P cuckoo w k" by blast
  have r: "unat (probe P w k) < length cuckoo" using probe_in_range[OF assms(1,4)] len by simp
  have "cuckoo ! unat (probe P w k) = 0"
  proof (rule ccontr)
    assume nz: "cuckoo ! unat (probe P w k) \<noteq> 0"
    then have "drop_bit (SIZESHIFT P) (cuckoo ! unat (probe P w k)) \<in> ?K"
      using inv r by (simp add: keys_inv_def)
    moreover have "drop_bit (SIZESHIFT P) (cuckoo ! unat (probe P w k)) = w AND KEYMASK P"
      using k nz by (simp add: first_hit_def slot_hit_def)
    ultimately show False using assms(5) by simp
  qed
  then show ?thesis using lookup_first_hit[OF k] by simp
qed


lemma first_hit_after_set:
  assumes "wf_params P" "v < SIZE P" "first_hit P cuckoo u k"
  shows "first_hit P (cuckoo[unat (probe P u k) := push_bit (SIZESHIFT P) u OR v]) u k"
proof -
  let ?c' = "cuckoo[unat (probe P u k) := push_bit (SIZESHIFT P) u OR v]"
  have "\<not> slot_hit P ?c' u (probe P u j)" if "j < k" for j
  proof -
    have nh: "\<not> slot_hit P cuckoo u (probe P u j)" using assms(3) that by (simp add: first_hit_def)
    have "unat (probe P u j) \<noteq> unat (probe P u k)"
      using nh assms(3) by (auto simp add: first_hit_def slot_hit_def)
    then have "?c' ! unat (probe P u j) = cuckoo ! unat (probe P u j)" by simp
    then show ?thesis using nh by (simp add: slot_hit_def)
  qed
  moreover have "slot_hit P ?c' u (probe P u k)"
  proof (cases "unat (probe P u k) < length cuckoo")
    case True
    then have "?c' ! unat (probe P u k) = push_bit (SIZESHIFT P) u OR v" by simp
    then show ?thesis using key_of_niew[OF assms(1,2), of u] by (simp only: slot_hit_def) simp
  next
    case False
    then have "?c' = cuckoo" by (simp add: list_update_beyond)
    then show ?thesis using assms(3) by (simp add: first_hit_def)
  qed
  ultimately show ?thesis by (simp add: first_hit_def)
qed

text \<open>
  Claim C6, amended.  On a table of \<^verbatim>\<open>CUCKOO_SIZE\<close> slots, for nodes below
  \<^verbatim>\<open>SIZE\<close>, let the probe sequence of \<open>u\<close> first reach an empty slot or the
  key of \<open>u\<close> after \<open>k\<close> steps, \<open>k\<close> below \<^verbatim>\<open>MAXDRIFT\<close>.  Then \<^verbatim>\<open>set(u, v)\<close>
  returns, a lookup of \<open>u\<close> in the new table returns \<open>v\<close>, and a second
  \<^verbatim>\<open>set(u, v')\<close> gives the table that \<^verbatim>\<open>set(u, v')\<close> gives on the old one: the
  mapping is overwritten in its slot.  A lookup of a key \<open>w\<close> that none of the
  calls \<open>kvs\<close> that built the table has set (up to \<^verbatim>\<open>KEYMASK\<close>, which changes no
  node when \<^verbatim>\<open>SIZESHIFT \<le> 32\<close>) returns the sentinel 0, provided the table has an
  empty slot.
\<close>

theorem cuckoo_hash_set_then_lookup:
  assumes "wf_params P" and "length cuckoo = unat (CUCKOO_SIZE P)"
    and "u < SIZE P" and "v < SIZE P" and "v' < SIZE P"
    and "first_hit P cuckoo u k" and "k < unat (MAXDRIFT P)"
  shows "(\<exists>cuckoo'. cuckoo_hash_set P cuckoo u v = Some cuckoo'
            \<and> cuckoo_hash_lookup P cuckoo' u = Some (Return v)
            \<and> cuckoo_hash_set P cuckoo' u v' = cuckoo_hash_set P cuckoo u v')
       \<and> (cuckoo_hash_sets P (cuckoo_hash_new P) kvs = Some cuckoo
            \<and> (\<forall>(a, b)\<in>set kvs. b < SIZE P)
            \<and> w < SIZE P \<and> w AND KEYMASK P \<notin> (\<lambda>(a, b). a AND KEYMASK P) ` set kvs
            \<and> (\<exists>i<length cuckoo. cuckoo ! i = 0)
          \<longrightarrow> cuckoo_hash_lookup P cuckoo w = Some (Return 0))"
proof -
  let ?s = "unat (probe P u k)"
  let ?niew = "push_bit (SIZESHIFT P) u OR v"
  let ?c' = "cuckoo[?s := ?niew]"
  have s: "?s < length cuckoo" using probe_in_range[OF assms(1,3)] assms(2) by simp
  have set1: "cuckoo_hash_set P cuckoo u v = Some ?c'" by (rule set_first_hit[OF assms(6)])
  note fh' = first_hit_after_set[OF assms(1,4,6)]
  have entry: "?c' ! ?s = ?niew" using s by simp
  have "cuckoo_hash_lookup P ?c' u = Some (Return v)"
  proof (cases "?niew = 0")
    case True
    then have "v = 0" by (simp add: or_eq_0_iff)
    then show ?thesis using lookup_first_hit[OF fh'] entry True by simp
  next
    case False
    then show ?thesis
      using lookup_first_hit[OF fh'] entry drift_ok[OF assms(1,7), of u] val_of_niew[OF assms(1,4), of u]
      by simp
  qed
  moreover have "cuckoo_hash_set P ?c' u v' = cuckoo_hash_set P cuckoo u v'"
    using set_first_hit[OF fh', of v'] set_first_hit[OF assms(6), of v'] by simp
  ultimately have part1: "\<exists>cuckoo'. cuckoo_hash_set P cuckoo u v = Some cuckoo'
            \<and> cuckoo_hash_lookup P cuckoo' u = Some (Return v)
            \<and> cuckoo_hash_set P cuckoo' u v' = cuckoo_hash_set P cuckoo u v'"
    using set1 by blast
  have part2: "cuckoo_hash_lookup P cuckoo w = Some (Return 0)"
    if "cuckoo_hash_sets P (cuckoo_hash_new P) kvs = Some cuckoo
            \<and> (\<forall>(a, b)\<in>set kvs. b < SIZE P)
            \<and> w < SIZE P \<and> w AND KEYMASK P \<notin> (\<lambda>(a, b). a AND KEYMASK P) ` set kvs
            \<and> (\<exists>i<length cuckoo. cuckoo ! i = 0)"
    using that lookup_never_set[OF assms(1), of kvs cuckoo w] by blast
  from part1 part2 show ?thesis by blast
qed

text \<open>
  Claim C9, amended.  Let \<open>k\<close> be the first position of the probe sequence of
  \<open>u\<close> whose slot is empty or stores the key of \<open>u\<close>.  Then \<^verbatim>\<open>set\<close> writes that
  slot and returns, whatever \<open>k\<close> is: it checks no distance.  The lookup returns
  0 at an empty slot, again unchecked; at the key it asserts that the distance
  from the natural slot, \<open>k\<close> modulo the capacity, is below \<^verbatim>\<open>MAXDRIFT\<close>, and
  returns the stored node or fails the assertion.  When no position qualifies,
  neither function returns.  For \<^verbatim>\<open>SIZESHIFT \<le> 32\<close> the assertion cannot fail.
\<close>

theorem drift_checked_on_found_key_only:
  assumes "wf_params P" and "length cuckoo = unat (CUCKOO_SIZE P)" and "u < SIZE P"
  shows "(first_hit P cuckoo u k \<longrightarrow>
            cuckoo_hash_set P cuckoo u v
              = Some (cuckoo[unat (probe P u k) := push_bit (SIZESHIFT P) u OR v])
          \<and> cuckoo_hash_lookup P cuckoo u
              = Some (if cuckoo ! unat (probe P u k) = 0 then Return 0
                      else if (probe P u k - probe P u 0) AND CUCKOO_MASK P < MAXDRIFT P
                           then Return (cuckoo ! unat (probe P u k) AND (SIZE P - 1))
                           else AssertFailed [])
          \<and> unat ((probe P u k - probe P u 0) AND CUCKOO_MASK P) = k mod unat (CUCKOO_SIZE P))
       \<and> ((\<forall>j. \<not> slot_hit P cuckoo u (probe P u j)) \<longrightarrow>
            cuckoo_hash_set P cuckoo u v = None \<and> cuckoo_hash_lookup P cuckoo u = None)
       \<and> (SIZESHIFT P \<le> 32 \<longrightarrow> (\<forall>evs. cuckoo_hash_lookup P cuckoo u \<noteq> Some (AssertFailed evs)))"
proof -
  have a: "cuckoo_hash_set P cuckoo u v
              = Some (cuckoo[unat (probe P u k) := push_bit (SIZESHIFT P) u OR v])
          \<and> cuckoo_hash_lookup P cuckoo u
              = Some (if cuckoo ! unat (probe P u k) = 0 then Return 0
                      else if (probe P u k - probe P u 0) AND CUCKOO_MASK P < MAXDRIFT P
                           then Return (cuckoo ! unat (probe P u k) AND (SIZE P - 1))
                           else AssertFailed [])
          \<and> unat ((probe P u k - probe P u 0) AND CUCKOO_MASK P) = k mod unat (CUCKOO_SIZE P)"
    if "first_hit P cuckoo u k"
    using set_first_hit[OF that, of v] lookup_first_hit[OF that] drift_eq[OF assms(1), of u k] by simp
  have b: "cuckoo_hash_set P cuckoo u v = None \<and> cuckoo_hash_lookup P cuckoo u = None"
    if "\<forall>j. \<not> slot_hit P cuckoo u (probe P u j)"
    using no_hit_None[OF that] by simp
  have c: "cuckoo_hash_lookup P cuckoo u \<noteq> Some (AssertFailed evs)" if "SIZESHIFT P \<le> 32" for evs
  proof
    assume af: "cuckoo_hash_lookup P cuckoo u = Some (AssertFailed evs)"
    from lookup_Some_first_hit[OF af] obtain j where j: "first_hit P cuckoo u j" by blast
    from lookup_first_hit[OF j] af drift_small_graph[OF assms(1) that, of u j]
    show False by (simp split: if_splits)
  qed
  from a b c show ?thesis by blast
qed


text \<open>
  Claim C6, as stated, fails on a full table: four calls of \<^verbatim>\<open>set\<close> fill the
  four slots, and the lookup of node 5, never set, does not return.
\<close>

theorem lookup_full_table_counterexample:
  "cuckoo_hash_sets \<lparr>SIZESHIFT = 8, PART_BITS = 0, PROOFSIZE = 2\<rparr>
     (cuckoo_hash_new \<lparr>SIZESHIFT = 8, PART_BITS = 0, PROOFSIZE = 2\<rparr>)
     [(1, 10), (2, 10), (3, 10), (4, 10)] = Some [266, 522, 778, 1034]
   \<and> cuckoo_hash_lookup \<lparr>SIZESHIFT = 8, PART_BITS = 0, PROOFSIZE = 2\<rparr> [266, 522, 778, 1034] 5 = None"
proof -
  let ?P = "\<lparr>SIZESHIFT = 8, PART_BITS = 0, PROOFSIZE = 2\<rparr>"
  have wf: "wf_params ?P" by (simp add: wf_params_def IDXSHIFT_def)
  have len: "length [266, 522, 778, 1034 :: u64] = unat (CUCKOO_SIZE ?P)"
    by (simp add: CUCKOO_SIZE_def SIZE_def IDXSHIFT_def)
  have u: "5 < SIZE ?P" by (simp add: SIZE_def)
  have full: "\<forall>i<length [266, 522, 778, 1034 :: u64]. [266, 522, 778, 1034 :: u64] ! i \<noteq> 0 \<and>
      drop_bit (SIZESHIFT ?P) ([266, 522, 778, 1034 :: u64] ! i) \<noteq> 5 AND KEYMASK ?P"
    by code_simp
  have "cuckoo_hash_lookup ?P [266, 522, 778, 1034] 5 = None"
    by (rule no_hit_None(2)) (simp add: full_table_no_hit[OF wf len u full])
  moreover have "cuckoo_hash_sets ?P (cuckoo_hash_new ?P) [(1, 10), (2, 10), (3, 10), (4, 10)]
      = Some [266, 522, 778, 1034]"
    by code_simp
  ultimately show ?thesis by simp
qed

text \<open>
  Witness for C6: the table after \<^verbatim>\<open>set(1, 10)\<close> and \<^verbatim>\<open>set(2, 11)\<close>; node 3
  finds its slot after two steps, node 5 was never set.
\<close>

theorem cuckoo_hash_set_then_lookup_witness:
  "(\<exists>cuckoo'. cuckoo_hash_set \<lparr>SIZESHIFT = 8, PART_BITS = 0, PROOFSIZE = 2\<rparr> [266, 523, 0, 0] 3 12 = Some cuckoo'
      \<and> cuckoo_hash_lookup \<lparr>SIZESHIFT = 8, PART_BITS = 0, PROOFSIZE = 2\<rparr> cuckoo' 3 = Some (Return 12)
      \<and> cuckoo_hash_set \<lparr>SIZESHIFT = 8, PART_BITS = 0, PROOFSIZE = 2\<rparr> cuckoo' 3 13
          = cuckoo_hash_set \<lparr>SIZESHIFT = 8, PART_BITS = 0, PROOFSIZE = 2\<rparr> [266, 523, 0, 0] 3 13)
   \<and> cuckoo_hash_lookup \<lparr>SIZESHIFT = 8, PART_BITS = 0, PROOFSIZE = 2\<rparr> [266, 523, 0, 0] 5 = Some (Return 0)"
proof -
  let ?P = "\<lparr>SIZESHIFT = 8, PART_BITS = 0, PROOFSIZE = 2\<rparr>"
  let ?c = "[266, 523, 0, 0] :: u64 list"
  have wf: "wf_params ?P" by (simp add: wf_params_def IDXSHIFT_def)
  have len: "length ?c = unat (CUCKOO_SIZE ?P)"
    by (simp add: CUCKOO_SIZE_def SIZE_def IDXSHIFT_def)
  have lt: "3 < SIZE ?P" "12 < SIZE ?P" "13 < SIZE ?P" by (simp_all add: SIZE_def)
  have fh: "first_hit ?P ?c 3 2"
    unfolding first_hit_def by code_simp
  have md: "2 < unat (MAXDRIFT ?P)" by (simp add: unat_MAXDRIFT[OF wf] IDXSHIFT_def)
  have hist: "cuckoo_hash_sets ?P (cuckoo_hash_new ?P) [(1, 10), (2, 11)] = Some ?c
            \<and> (\<forall>(a, b)\<in>set [(1, 10), (2, 11)]. b < SIZE ?P)
            \<and> 5 < SIZE ?P \<and> 5 AND KEYMASK ?P \<notin> (\<lambda>(a, b). a AND KEYMASK ?P) ` set [(1, 10), (2, 11)]
            \<and> (\<exists>i<length ?c. ?c ! i = 0)"
    by code_simp
  from cuckoo_hash_set_then_lookup[OF wf len lt fh md, of "[(1, 10), (2, 11)]" 5] hist
  show ?thesis by blast
qed


text \<open>
  Claim C9, as stated, fails.  On a full table of four slots \<^verbatim>\<open>set(5, 7)\<close>
  probes without end and nothing detects it.  With \<^verbatim>\<open>SIZESHIFT = 33\<close> and
  \<^verbatim>\<open>PART_BITS = 25\<close> (four slots, \<^verbatim>\<open>MAXDRIFT = 1\<close>), \<^verbatim>\<open>set(2, 11)\<close> stores node 2 one
  slot away from its natural slot and returns, and the lookup of node 3 passes
  two occupied slots and returns 0: both exceed the bound unnoticed.
\<close>

theorem drift_unchecked_counterexample:
  "cuckoo_hash_set \<lparr>SIZESHIFT = 8, PART_BITS = 0, PROOFSIZE = 2\<rparr> [266, 522, 778, 1034] 5 7 = None
   \<and> MAXDRIFT \<lparr>SIZESHIFT = 33, PART_BITS = 25, PROOFSIZE = 2\<rparr> = 1
   \<and> cuckoo_hash_set \<lparr>SIZESHIFT = 33, PART_BITS = 25, PROOFSIZE = 2\<rparr> [8589934602, 0, 0, 0] 2 11
       = Some [8589934602, 17179869195, 0, 0]
   \<and> cuckoo_hash_lookup \<lparr>SIZESHIFT = 33, PART_BITS = 25, PROOFSIZE = 2\<rparr>
         [8589934602, 17179869195, 0, 0] 3 = Some (Return 0)"
proof -
  let ?P = "\<lparr>SIZESHIFT = 8, PART_BITS = 0, PROOFSIZE = 2\<rparr>"
  have wf: "wf_params ?P" by (simp add: wf_params_def IDXSHIFT_def)
  have len: "length [266, 522, 778, 1034 :: u64] = unat (CUCKOO_SIZE ?P)"
    by (simp add: CUCKOO_SIZE_def SIZE_def IDXSHIFT_def)
  have u: "5 < SIZE ?P" by (simp add: SIZE_def)
  have full: "\<forall>i<length [266, 522, 778, 1034 :: u64]. [266, 522, 778, 1034 :: u64] ! i \<noteq> 0 \<and>
      drop_bit (SIZESHIFT ?P) ([266, 522, 778, 1034 :: u64] ! i) \<noteq> 5 AND KEYMASK ?P"
    by code_simp
  have "cuckoo_hash_set ?P [266, 522, 778, 1034] 5 7 = None"
    by (rule no_hit_None(1)) (simp add: full_table_no_hit[OF wf len u full])
  moreover have "MAXDRIFT \<lparr>SIZESHIFT = 33, PART_BITS = 25, PROOFSIZE = 2\<rparr> = 1
   \<and> cuckoo_hash_set \<lparr>SIZESHIFT = 33, PART_BITS = 25, PROOFSIZE = 2\<rparr> [8589934602, 0, 0, 0] 2 11
       = Some [8589934602, 17179869195, 0, 0]
   \<and> cuckoo_hash_lookup \<lparr>SIZESHIFT = 33, PART_BITS = 25, PROOFSIZE = 2\<rparr>
         [8589934602, 17179869195, 0, 0] 3 = Some (Return 0)"
    by code_simp
  ultimately show ?thesis by simp
qed

text \<open>
  Witness for C9: node 2 found one slot from its natural slot, and node 5 on the
  full table.
\<close>

theorem drift_checked_on_found_key_only_witness:
  "cuckoo_hash_lookup \<lparr>SIZESHIFT = 8, PART_BITS = 0, PROOFSIZE = 2\<rparr> [266, 523, 0, 0] 2 = Some (Return 11)
   \<and> cuckoo_hash_set \<lparr>SIZESHIFT = 8, PART_BITS = 0, PROOFSIZE = 2\<rparr> [266, 523, 0, 0] 2 12
       = Some [266, 524, 0, 0]
   \<and> cuckoo_hash_set \<lparr>SIZESHIFT = 8, PART_BITS = 0, PROOFSIZE = 2\<rparr> [266, 522, 778, 1034] 5 7 = None
   \<and> cuckoo_hash_lookup \<lparr>SIZESHIFT = 8, PART_BITS = 0, PROOFSIZE = 2\<rparr> [266, 522, 778, 1034] 5 = None
   \<and> (\<forall>evs. cuckoo_hash_lookup \<lparr>SIZESHIFT = 8, PART_BITS = 0, PROOFSIZE = 2\<rparr> [266, 523, 0, 0] 2
          \<noteq> Some (AssertFailed evs))"
proof -
  let ?P = "\<lparr>SIZESHIFT = 8, PART_BITS = 0, PROOFSIZE = 2\<rparr>"
  let ?c = "[266, 523, 0, 0] :: u64 list"
  let ?f = "[266, 522, 778, 1034] :: u64 list"
  have wf: "wf_params ?P" by (simp add: wf_params_def IDXSHIFT_def)
  have len: "length ?c = unat (CUCKOO_SIZE ?P)" "length ?f = unat (CUCKOO_SIZE ?P)"
    by (simp_all add: CUCKOO_SIZE_def SIZE_def IDXSHIFT_def)
  have lt: "2 < SIZE ?P" "5 < SIZE ?P" by (simp_all add: SIZE_def)
  have fh: "first_hit ?P ?c 2 1" unfolding first_hit_def by code_simp
  have full: "\<forall>i<length ?f. ?f ! i \<noteq> 0 \<and> drop_bit (SIZESHIFT ?P) (?f ! i) \<noteq> 5 AND KEYMASK ?P"
    by code_simp
  have nohit: "\<forall>j. \<not> slot_hit ?P ?f 5 (probe ?P 5 j)"
    using full_table_no_hit[OF wf len(2) lt(2) full] by simp
  have small: "SIZESHIFT ?P \<le> 32" by simp
  have ev: "(if ?c ! unat (probe ?P 2 1) = 0 then Return 0
             else if (probe ?P 2 1 - probe ?P 2 0) AND CUCKOO_MASK ?P < MAXDRIFT ?P
                  then Return (?c ! unat (probe ?P 2 1) AND (SIZE ?P - 1))
                  else AssertFailed []) = Return 11"
       "?c[unat (probe ?P 2 1) := push_bit (SIZESHIFT ?P) 2 OR 12] = [266, 524, 0, 0]"
    by code_simp+
  from drift_checked_on_found_key_only[OF wf len(1) lt(1), of 1 12] fh small
       drift_checked_on_found_key_only[OF wf len(2) lt(2), of 0 7] nohit
  show ?thesis by (simp only: ev) blast
qed

section \<open>Verification: trimming is deterministic\<close>

subsection \<open>The array operations of a thread\<close>




subsection \<open>The kill kernel, word by word\<close>


lemma drop_bit_u32_nonzero: "drop_bit j (v :: u32) \<noteq> 0 \<Longrightarrow> j < 32"
  by (rule ccontr) (simp add: drop_bit_word_beyond)















subsection \<open>The count kernel, as the number of marks of each node\<close>



















subsection \<open>Interleaved runs of the count kernel\<close>




lemma sum_list_update_nat:
  "t < length xs \<Longrightarrow> sum_list (map f (xs[t := y])) + f (xs ! t) = sum_list (map f xs) + (f y :: nat)"
proof (induction xs arbitrary: t)
  case Nil
  then show ?case by simp
next
  case (Cons x xs)
  then show ?case by (cases t) (auto simp add: algebra_simps)
qed












lemma count_step_second:
  assumes "t < length ths" "ths ! t = (us, Some x)"
  shows "count_step t (bits, ths) =
         (bits[unat (x div 16) := bits ! unat (x div 16) OR 2 ^ (2 * unat (x mod 16)) * 2],
          ths[t := (us, None)])"
  using assms by (simp add: count_step_def atomicOr_def Let_def split: list.splits)

lemma count_step_first:
  assumes "t < length ths" "ths ! t = (x # us, None)"
  shows "count_step t (bits, ths) =
         (bits[unat (x div 16) := bits ! unat (x div 16) OR 2 ^ (2 * unat (x mod 16))],
          ths[t := (us, if bits ! unat (x div 16) AND (2 ^ (2 * unat (x mod 16)) * 2 OR 2 ^ (2 * unat (x mod 16)))
                           = 2 ^ (2 * unat (x mod 16)) then Some x else None)])"
  using assms by (simp add: count_step_def atomicOr_def Let_def split: list.splits)









subsection \<open>Interleaved runs of the kill kernel\<close>







lemma kill_step_enter:
  assumes "t < length ths" "ths ! t = AtBlock b" "b < unat (HALFSIZE P)"
  shows "kill_step P dipnode nonleaf n uorv part t (alive, ths) =
         (alive, ths[t := InBlock b (kill_inner_kills P dipnode nonleaf uorv part
                    (shrinkingset_block alive (of_nat b)) (of_nat b))])"
  using assms by (simp add: kill_step_def)

lemma kill_step_next:
  assumes "t < length ths" "ths ! t = InBlock b []"
  shows "kill_step P dipnode nonleaf n uorv part t (alive, ths) = (alive, ths[t := AtBlock (b + n * 32)])"
  using assms by (simp add: kill_step_def)

lemma kill_step_load:
  assumes "t < length ths" "ths ! t = InBlock b (k # ks)"
  shows "kill_step P dipnode nonleaf n uorv part t (alive, ths) =
         (alive, ths[t := Loaded b k ks (alive ! unat (k div 32))])"
  using assms by (simp add: kill_step_def)

lemma kill_step_store:
  assumes "t < length ths" "ths ! t = Loaded b k ks w"
  shows "kill_step P dipnode nonleaf n uorv part t (alive, ths) =
         (alive[unat (k div 32) := w OR push_bit (unat (k mod 32)) 1], ths[t := InBlock b ks])"
  using assms by (simp add: kill_step_def)







subsection \<open>Runs of the trimming rounds\<close>









subsection \<open>Every kernel can run to its end\<close>

text \<open>
  Every step of a thread that has not ended decreases the work left, so from
  every state some schedule ends the kernel: the runs that the determinism
  theorem speaks about exist for every positive thread count.
\<close>

definition cwork :: "cthread \<Rightarrow> nat" where
  "cwork th = 2 * length (fst th) + (case snd th of None \<Rightarrow> 0 | Some u \<Rightarrow> 1)"

lemma sum_list_update_less:
  assumes "t < length xs" "f y < (f (xs ! t) :: nat)"
  shows "sum_list (map f (xs[t := y])) < sum_list (map f xs)"
  using sum_list_update_nat[OF assms(1), of f y] assms(2) by simp

lemma count_progress:
  assumes "\<not> count_done ths"
  shows "\<exists>t. sum_list (map cwork (snd (count_step t (bits, ths)))) < sum_list (map cwork ths)"
proof -
  from assms obtain th where th: "th \<in> set ths" "th \<noteq> ([], None)"
    by (auto simp add: count_done_def list_all_iff)
  from th(1) obtain t where "t < length ths" "ths ! t = th" by (auto simp add: in_set_conv_nth)
  with th(2) have t: "t < length ths" "ths ! t \<noteq> ([], None)" by simp_all
  consider (second) us x where "ths ! t = (us, Some x)"
    | (first) us x where "ths ! t = (x # us, None)"
    using t(2) by (cases "ths ! t"; cases "fst (ths ! t)"; cases "snd (ths ! t)") auto
  then show ?thesis
  proof cases
    case second
    have "sum_list (map cwork (ths[t := (us, None)])) < sum_list (map cwork ths)"
      by (rule sum_list_update_less[OF t(1)]) (simp add: second cwork_def)
    then have "sum_list (map cwork (snd (count_step t (bits, ths)))) < sum_list (map cwork ths)"
      unfolding count_step_second[OF t(1) second] snd_conv .
    then show ?thesis by blast
  next
    case first
    have "sum_list (map cwork (ths[t := (us, q)])) < sum_list (map cwork ths)" for q
      by (rule sum_list_update_less[OF t(1)]) (simp add: first cwork_def split: option.splits)
    then have "sum_list (map cwork (snd (count_step t (bits, ths)))) < sum_list (map cwork ths)"
      unfolding count_step_first[OF t(1) first] snd_conv by blast
    then show ?thesis by blast
  qed
qed

lemma count_run_Cons: "count_run (t # sched) s = count_run sched (count_step t s)"
  by (simp add: count_run_def)

lemma count_complete:
  "\<exists>sched. count_done (snd (count_run sched s))"
proof (induction "sum_list (map cwork (snd s))" arbitrary: s rule: less_induct)
  case less
  show ?case
  proof (cases "count_done (snd s)")
    case True
    then have "count_done (snd (count_run [] s))" by (simp add: count_run_def)
    then show ?thesis by blast
  next
    case False
    obtain bits ths where s: "s = (bits, ths)" by (cases s)
    from count_progress[of ths bits] False obtain t where
      "sum_list (map cwork (snd (count_step t s))) < sum_list (map cwork (snd s))"
      by (auto simp add: s)
    from less[OF this] obtain sched where "count_done (snd (count_run sched (count_step t s)))"
      by blast
    then have "count_done (snd (count_run (t # sched) s))" by (simp only: count_run_Cons)
    then show ?thesis by blast
  qed
qed

definition kwork :: "params \<Rightarrow> kthread \<Rightarrow> nat" where
  "kwork P th =
     (case th of
        AtBlock b \<Rightarrow> (unat (HALFSIZE P) - b) * 66
      | InBlock b ns \<Rightarrow> (unat (HALFSIZE P) - b - 1) * 66 + 1 + 2 * length ns
      | Loaded b k ns w \<Rightarrow> (unat (HALFSIZE P) - b - 1) * 66 + 2 + 2 * length ns)"

lemma length_kills:
  "alive32 = drop_bit j v \<Longrightarrow>
   length (kill_inner_kills P dipnode nonleaf uorv part alive32 nonce) \<le> 32 - j"
proof (induction P dipnode nonleaf uorv part alive32 nonce arbitrary: j rule: kill_inner_kills.induct)
  case (1 P dipnode nonleaf uorv part alive32 nonce)
  show ?case
  proof (cases "alive32 = 0")
    case True
    then show ?thesis by (subst kill_inner_kills.simps) simp
  next
    case False
    then have j: "j < 32" using 1(2) drop_bit_u32_nonzero by blast
    have a: "drop_bit 1 alive32 = drop_bit (Suc j) v" using 1(2) by (simp add: drop_bit_drop_bit)
    from 1(1)[OF False a]
    have "length (kill_inner_kills P dipnode nonleaf uorv part (drop_bit 1 alive32) (nonce + 1)) \<le> 32 - Suc j" .
    then show ?thesis using False j
      by (subst kill_inner_kills.simps) (auto simp add: Let_def)
  qed
qed

lemma length_kills_32:
  "length (kill_inner_kills P dipnode nonleaf uorv part alive32 nonce) \<le> 32"
  using length_kills[of alive32 0 alive32 P dipnode nonleaf uorv part nonce] by simp

lemma kill_progress:
  assumes n: "0 < n" and nd: "\<not> kill_done P ths"
  shows "\<exists>t. sum_list (map (kwork P) (snd (kill_step P dipnode nonleaf n uorv part t (alive, ths))))
             < sum_list (map (kwork P) ths)"
proof -
  from nd obtain th where th: "th \<in> set ths"
    "\<not> (case th of AtBlock block \<Rightarrow> \<not> block < unat (HALFSIZE P) | _ \<Rightarrow> False)"
    unfolding kill_done_def list_all_iff by blast
  from th(1) obtain t where "t < length ths" "ths ! t = th" by (auto simp add: in_set_conv_nth)
  with th(2) have t: "t < length ths"
    "\<not> (case ths ! t of AtBlock block \<Rightarrow> \<not> block < unat (HALFSIZE P) | _ \<Rightarrow> False)" by simp_all
  consider (enter) b where "ths ! t = AtBlock b" "b < unat (HALFSIZE P)"
    | (nxt) b where "ths ! t = InBlock b []"
    | (load) b k ks where "ths ! t = InBlock b (k # ks)"
    | (store) b k ks w where "ths ! t = Loaded b k ks w"
  proof (cases "ths ! t")
    case (AtBlock b)
    then show ?thesis using t(2) enter by auto
  next
    case (InBlock b ns)
    then show ?thesis using nxt load by (cases ns) auto
  next
    case (Loaded b k ns w)
    then show ?thesis using store by auto
  qed
  then show ?thesis
  proof cases
    case enter
    have "length (kill_inner_kills P dipnode nonleaf uorv part
                    (shrinkingset_block alive (of_nat b)) (of_nat b)) \<le> 32"
      by (rule length_kills_32)
    moreover have "(unat (HALFSIZE P) - b) * 66 = (unat (HALFSIZE P) - b - 1) * 66 + 66"
      using enter(2) by (simp add: algebra_simps)
    ultimately have "sum_list (map (kwork P) (ths[t := InBlock b (kill_inner_kills P dipnode nonleaf uorv part
                    (shrinkingset_block alive (of_nat b)) (of_nat b))])) < sum_list (map (kwork P) ths)"
      by (intro sum_list_update_less[OF t(1)]) (simp add: enter(1) kwork_def)
    then have "sum_list (map (kwork P) (snd (kill_step P dipnode nonleaf n uorv part t (alive, ths))))
             < sum_list (map (kwork P) ths)"
      unfolding kill_step_enter[OF t(1) enter] snd_conv .
    then show ?thesis by blast
  next
    case nxt
    have "unat (HALFSIZE P) - (b + n * 32) \<le> unat (HALFSIZE P) - b - 1" using n by simp
    then have "(unat (HALFSIZE P) - (b + n * 32)) * 66 \<le> (unat (HALFSIZE P) - b - 1) * 66"
      by (rule mult_le_mono1)
    then have "sum_list (map (kwork P) (ths[t := AtBlock (b + n * 32)])) < sum_list (map (kwork P) ths)"
      by (intro sum_list_update_less[OF t(1)]) (simp add: nxt kwork_def)
    then have "sum_list (map (kwork P) (snd (kill_step P dipnode nonleaf n uorv part t (alive, ths))))
             < sum_list (map (kwork P) ths)"
      unfolding kill_step_next[OF t(1) nxt] snd_conv .
    then show ?thesis by blast
  next
    case load
    have "sum_list (map (kwork P) (ths[t := Loaded b k ks (alive ! unat (k div 32))])) < sum_list (map (kwork P) ths)"
      by (intro sum_list_update_less[OF t(1)]) (simp add: load kwork_def)
    then have "sum_list (map (kwork P) (snd (kill_step P dipnode nonleaf n uorv part t (alive, ths))))
             < sum_list (map (kwork P) ths)"
      unfolding kill_step_load[OF t(1) load] snd_conv .
    then show ?thesis by blast
  next
    case store
    have "sum_list (map (kwork P) (ths[t := InBlock b ks])) < sum_list (map (kwork P) ths)"
      by (intro sum_list_update_less[OF t(1)]) (simp add: store kwork_def)
    then have "sum_list (map (kwork P) (snd (kill_step P dipnode nonleaf n uorv part t (alive, ths))))
             < sum_list (map (kwork P) ths)"
      unfolding kill_step_store[OF t(1) store] snd_conv .
    then show ?thesis by blast
  qed
qed

lemma kill_run_Cons:
  "kill_run P dipnode nonleaf n uorv part (t # sched) s =
   kill_run P dipnode nonleaf n uorv part sched (kill_step P dipnode nonleaf n uorv part t s)"
  by (simp add: kill_run_def)

lemma kill_complete:
  assumes n: "0 < n"
  shows "\<exists>sched. kill_done P (snd (kill_run P dipnode nonleaf n uorv part sched s))"
proof (induction "sum_list (map (kwork P) (snd s))" arbitrary: s rule: less_induct)
  case less
  show ?case
  proof (cases "kill_done P (snd s)")
    case True
    then have "kill_done P (snd (kill_run P dipnode nonleaf n uorv part [] s))" by (simp add: kill_run_def)
    then show ?thesis by blast
  next
    case False
    obtain alive ths where s: "s = (alive, ths)" by (cases s)
    from kill_progress[OF n, of P ths dipnode nonleaf uorv part alive] False obtain t where
      "sum_list (map (kwork P) (snd (kill_step P dipnode nonleaf n uorv part t s)))
         < sum_list (map (kwork P) (snd s))"
      by (auto simp add: s)
    from less[OF this] obtain sched where
      "kill_done P (snd (kill_run P dipnode nonleaf n uorv part sched (kill_step P dipnode nonleaf n uorv part t s)))"
      by blast
    then have "kill_done P (snd (kill_run P dipnode nonleaf n uorv part (t # sched) s))"
      by (simp only: kill_run_Cons)
    then show ?thesis by blast
  qed
qed

lemma trim_pass_complete:
  assumes n: "0 < n"
  shows "\<exists>s a. trim_pass_sched P dipnode n alive p s = Some a"
proof -
  obtain uorv part where p: "p = (uorv, part)" by (cases p)
  obtain cs where cs: "count_done (snd (count_run cs (count_init P dipnode alive n uorv part)))"
    using count_complete by blast
  obtain nonleaf cths where c: "count_run cs (count_init P dipnode alive n uorv part) = (nonleaf, cths)"
    by (cases "count_run cs (count_init P dipnode alive n uorv part)")
  obtain ks where ks: "kill_done P (snd (kill_run P dipnode nonleaf n uorv part ks (alive, kill_init n)))"
    using kill_complete[OF n] by blast
  obtain a kths where k: "kill_run P dipnode nonleaf n uorv part ks (alive, kill_init n) = (a, kths)"
    by (cases "kill_run P dipnode nonleaf n uorv part ks (alive, kill_init n)")
  have "trim_pass_sched P dipnode n alive p (cs, ks) = Some a"
    using cs ks by (simp add: trim_pass_sched_def p c k)
  then show ?thesis by blast
qed

lemma trim_passes_complete:
  assumes n: "0 < n"
  shows "\<exists>scheds a. trim_passes_sched P dipnode n ps scheds alive = Some a"
proof (induction ps arbitrary: alive)
  case Nil
  show ?case by simp
next
  case (Cons p ps)
  from trim_pass_complete[OF n, of P dipnode alive p] obtain s a where
    s: "trim_pass_sched P dipnode n alive p s = Some a" by blast
  from Cons[of a] obtain scheds b where "trim_passes_sched P dipnode n ps scheds a = Some b" by blast
  then have "trim_passes_sched P dipnode n (p # ps) (s # scheds) alive = Some b" using s by simp
  then show ?case by blast
qed

lemma trim_sched_complete:
  assumes "0 < n"
  shows "\<exists>scheds a. trim_sched P dipnode n ntrims scheds alive = Some a"
  unfolding trim_sched_def by (rule trim_passes_complete[OF assms])




end
